theory Spec2Isabelle
  imports Complex_Main
begin

section \<open>Decimal values\<close>

text \<open>
  The engine keeps every price, quantity and balance as decimal text and computes with
  the decimal.js wrappers of \<^verbatim>\<open>utils/decimal.ts\<close> (\<^verbatim>\<open>add\<close>, \<^verbatim>\<open>subtract\<close>,
  \<^verbatim>\<open>multiply\<close>, \<^verbatim>\<open>min\<close>, \<^verbatim>\<open>isLess\<close>, ...), configured with 30 significant digits.
  A decimal is modelled by the rational number it denotes: the wrappers become \<open>+\<close>,
  \<open>-\<close>, \<open>*\<close>, \<open>min\<close>, \<open><\<close>, ... on \<^typ>\<open>rat\<close>. Two readings of the source are fixed
  by this choice: the text is canonical (two texts are equal exactly when their values
  are, which is what \<^verbatim>\<open>Decimal.toString\<close> produces), and no result needs more than
  the 30 digits of precision, so that no rounding occurs.
\<close>

type_synonym decimal = rat

section \<open>Orderbook.ts\<close>

datatype side = Buy | Sell

record order =
  price :: decimal
  quantity :: decimal
  orderId :: string
  filled :: decimal
  side :: side
  userId :: string

text \<open>The fields of \<^verbatim>\<open>Fill\<close>; its \<^verbatim>\<open>price\<close> and \<^verbatim>\<open>qty\<close> are named
  \<open>fprice\<close> and \<open>qty\<close> (a record field name is global).\<close>

record fill =
  fprice :: decimal
  qty :: decimal
  tradeId :: nat
  otherUserId :: string
  markerOrderId :: string

datatype SelfTradePreventionMode = CANCEL_NEWEST | CANCEL_OLDEST | CANCEL_BOTH

datatype status = ACCEPTED | REJECTED | PARTIALLY_FILLED

record AddOrderResult =
  status :: status
  executedQty :: decimal
  fills :: "fill list"
  rejectionReason :: "string option"
  cancelledOrders :: "string list option"

text \<open>The class \<^verbatim>\<open>Orderbook\<close>. The two depth caches are JavaScript maps from price
  text to quantity text. The field \<^verbatim>\<open>quoteAsset\<close> is initialised to
  \<^verbatim>\<open>BASE_CURRENCY\<close> and never assigned: it is a constant of the class.\<close>

record orderbook =
  bids :: "order list"
  asks :: "order list"
  baseAsset :: string
  lastTradeId :: nat
  currentPrice :: decimal
  stpMode :: SelfTradePreventionMode
  bidsDepth :: "decimal \<rightharpoonup> decimal"
  asksDepth :: "decimal \<rightharpoonup> decimal"

definition BASE_CURRENCY :: string where
  "BASE_CURRENCY = ''INR''"

definition quoteAsset :: "orderbook \<Rightarrow> string" where
  "quoteAsset ob = BASE_CURRENCY"

text \<open>\<^verbatim>\<open>depthMap.get(price) || "0"\<close>\<close>

definition getOr0 :: "(decimal \<rightharpoonup> decimal) \<Rightarrow> decimal \<Rightarrow> decimal" where
  "getOr0 m p = (case m p of None \<Rightarrow> 0 | Some v \<Rightarrow> v)"

text \<open>\<^verbatim>\<open>rebuildDepthCache\<close>: one pass over a side, starting from the cleared map.\<close>

fun rebuildSide :: "order list \<Rightarrow> (decimal \<rightharpoonup> decimal) \<Rightarrow> (decimal \<rightharpoonup> decimal)" where
  "rebuildSide [] m = m"
| "rebuildSide (ord # rest) m =
     rebuildSide rest (m(price ord \<mapsto> getOr0 m (price ord) + (quantity ord - filled ord)))"

definition rebuildDepthCache :: "orderbook \<Rightarrow> orderbook" where
  "rebuildDepthCache ob =
     ob\<lparr>bidsDepth := rebuildSide (bids ob) Map.empty,
        asksDepth := rebuildSide (asks ob) Map.empty\<rparr>"

text \<open>\<^verbatim>\<open>sortOrders\<close>: \<^verbatim>\<open>Array.prototype.sort\<close> is stable, and so is \<^const>\<open>sort_key\<close>.
  The comparator of the bids orders them by descending price.\<close>

definition sortOrders :: "orderbook \<Rightarrow> orderbook" where
  "sortOrders ob =
     ob\<lparr>bids := sort_key (\<lambda>x. - price x) (bids ob),
        asks := sort_key price (asks ob)\<rparr>"

text \<open>The constructor. \<^verbatim>\<open>stpMode\<close> is its last, optional parameter with default
  \<^verbatim>\<open>"CANCEL_NEWEST"\<close>: the caller passes \<open>None\<close> to leave it out.\<close>

definition newOrderbook ::
  "string \<Rightarrow> order list \<Rightarrow> order list \<Rightarrow> nat \<Rightarrow> decimal \<Rightarrow> SelfTradePreventionMode option \<Rightarrow> orderbook" where
  "newOrderbook base bs as ltid cp mode =
     rebuildDepthCache (sortOrders
       \<lparr>bids = bs, asks = as, baseAsset = base,
        lastTradeId = ltid, currentPrice = cp,
        stpMode = (case mode of None \<Rightarrow> CANCEL_NEWEST | Some m \<Rightarrow> m),
        bidsDepth = Map.empty, asksDepth = Map.empty\<rparr>)"

definition updateDepth :: "side \<Rightarrow> decimal \<Rightarrow> decimal \<Rightarrow> orderbook \<Rightarrow> orderbook" where
  "updateDepth sd p delta ob =
     (let depthMap = (if sd = Buy then bidsDepth ob else asksDepth ob);
          newValue = getOr0 depthMap p + delta;
          depthMap' = (if newValue \<le> 0 then depthMap(p := None) else depthMap(p \<mapsto> newValue))
      in if sd = Buy then ob\<lparr>bidsDepth := depthMap'\<rparr> else ob\<lparr>asksDepth := depthMap'\<rparr>)"

definition ticker :: "orderbook \<Rightarrow> string" where
  "ticker ob = baseAsset ob @ ''_'' @ quoteAsset ob"



text \<open>\<^verbatim>\<open>findInsertIndex\<close>: the binary search, with \<open>low\<close> and \<open>high\<close> as loop state.
  \<^verbatim>\<open>(low + high) >>> 1\<close> is the halving of a sum below \<open>2^32\<close>.\<close>

function findInsertLoop :: "order list \<Rightarrow> decimal \<Rightarrow> side \<Rightarrow> nat \<Rightarrow> nat \<Rightarrow> nat" where
  "findInsertLoop arr p sd low high =
     (if low < high then
        (if (if sd = Buy then p > price (arr ! ((low + high) div 2))
             else p < price (arr ! ((low + high) div 2)))
         then findInsertLoop arr p sd low ((low + high) div 2)
         else findInsertLoop arr p sd ((low + high) div 2 + 1) high)
      else low)"
  by pat_completeness auto
termination
  by (relation "measure (\<lambda>(arr, p, sd, low, high). high - low)") auto

declare findInsertLoop.simps [simp del]

definition findInsertIndex :: "order list \<Rightarrow> decimal \<Rightarrow> side \<Rightarrow> nat" where
  "findInsertIndex arr p sd = findInsertLoop arr p sd 0 (length arr)"

text \<open>\<^verbatim>\<open>arr.splice(index, 0, x)\<close> and \<^verbatim>\<open>arr.splice(index, 1)\<close>.\<close>

definition insertAt :: "nat \<Rightarrow> 'a \<Rightarrow> 'a list \<Rightarrow> 'a list" where
  "insertAt i x xs = take i xs @ x # drop i xs"

definition removeAt :: "nat \<Rightarrow> 'a list \<Rightarrow> 'a list" where
  "removeAt i xs = take i xs @ drop (Suc i) xs"

text \<open>\<^verbatim>\<open>arr.findIndex(pred)\<close>, with \<open>None\<close> for \<open>-1\<close>.\<close>

fun findIndex :: "('a \<Rightarrow> bool) \<Rightarrow> 'a list \<Rightarrow> nat option" where
  "findIndex P [] = None"
| "findIndex P (x # xs) = (if P x then Some 0 else map_option Suc (findIndex P xs))"

text \<open>The check \<^verbatim>\<open>isMatchable\<close> / \<^verbatim>\<open>pricesCross\<close> of a resting order against the
  incoming one, written twice in the source with the same body.\<close>

definition pricesCross :: "side \<Rightarrow> order \<Rightarrow> order \<Rightarrow> bool" where
  "pricesCross sd restingOrder incoming =
     (if sd = Buy then price restingOrder \<le> price incoming
      else price restingOrder \<ge> price incoming)"

text \<open>The loop of \<^verbatim>\<open>wouldSelfTrade\<close>: it stops at the first resting order that does
  not match and collects the resting orders of the same user.\<close>

fun conflictingOrders :: "order \<Rightarrow> order list \<Rightarrow> order list" where
  "conflictingOrders ord [] = []"
| "conflictingOrders ord (restingOrder # rest) =
     (if \<not> pricesCross (side ord) restingOrder ord then []
      else if userId restingOrder = userId ord
        then restingOrder # conflictingOrders ord rest
        else conflictingOrders ord rest)"

definition oppositeBook :: "side \<Rightarrow> orderbook \<Rightarrow> order list" where
  "oppositeBook sd ob = (if sd = Buy then asks ob else bids ob)"

definition setOppositeBook :: "side \<Rightarrow> order list \<Rightarrow> orderbook \<Rightarrow> orderbook" where
  "setOppositeBook sd book ob = (if sd = Buy then ob\<lparr>asks := book\<rparr> else ob\<lparr>bids := book\<rparr>)"

definition wouldSelfTrade :: "orderbook \<Rightarrow> order \<Rightarrow> bool \<times> order list" where
  "wouldSelfTrade ob ord =
     (let cs = conflictingOrders ord (oppositeBook (side ord) ob) in (cs \<noteq> [], cs))"

definition cancelBid :: "order \<Rightarrow> orderbook \<Rightarrow> orderbook \<times> decimal option" where
  "cancelBid ord ob =
     (case findIndex (\<lambda>x. orderId x = orderId ord) (bids ob) of
        Some index \<Rightarrow>
          (let cancelledOrder = bids ob ! index;
               remaining = quantity cancelledOrder - filled cancelledOrder;
               ob1 = updateDepth Buy (price cancelledOrder) (0 - remaining) ob
           in (ob1\<lparr>bids := removeAt index (bids ob1)\<rparr>, Some (price cancelledOrder)))
      | None \<Rightarrow> (ob, None))"

definition cancelAsk :: "order \<Rightarrow> orderbook \<Rightarrow> orderbook \<times> decimal option" where
  "cancelAsk ord ob =
     (case findIndex (\<lambda>x. orderId x = orderId ord) (asks ob) of
        Some index \<Rightarrow>
          (let cancelledOrder = asks ob ! index;
               remaining = quantity cancelledOrder - filled cancelledOrder;
               ob1 = updateDepth Sell (price cancelledOrder) (0 - remaining) ob
           in (ob1\<lparr>asks := removeAt index (asks ob1)\<rparr>, Some (price cancelledOrder)))
      | None \<Rightarrow> (ob, None))"

text \<open>One execution of the block ``Execute Trade'' of \<^verbatim>\<open>matchOrder\<close> on the maker at
  index \<open>i\<close>: the maker's \<^verbatim>\<open>filled\<close> grows in place, the depth of its level
  shrinks, the trade counter advances and the last price is set.\<close>

definition executeTrade :: "side \<Rightarrow> nat \<Rightarrow> decimal \<Rightarrow> orderbook \<Rightarrow> orderbook" where
  "executeTrade sd i fillQty ob =
     (let book = oppositeBook sd ob;
          makerOrder = book ! i;
          ob1 = setOppositeBook sd (book[i := makerOrder\<lparr>filled := filled makerOrder + fillQty\<rparr>]) ob;
          ob2 = updateDepth (if sd = Buy then Sell else Buy) (price makerOrder) (0 - fillQty) ob1
      in ob2\<lparr>lastTradeId := lastTradeId ob2 + 1, currentPrice := price makerOrder\<rparr>)"

definition mkFill :: "order \<Rightarrow> decimal \<Rightarrow> nat \<Rightarrow> fill" where
  "mkFill makerOrder fillQty tid =
     \<lparr>fprice = price makerOrder, qty = fillQty, tradeId = tid,
      otherUserId = userId makerOrder, markerOrderId = orderId makerOrder\<rparr>"

text \<open>The \<^verbatim>\<open>while\<close> loop of \<^verbatim>\<open>matchOrder\<close>. The loop state is the index \<open>i\<close>, the
  fills so far, \<^verbatim>\<open>executedQty\<close>, \<^verbatim>\<open>qtyToFill\<close> and the book, whose opposite side
  is the array \<^verbatim>\<open>book\<close> of the source.\<close>

function matchLoop ::
  "order \<Rightarrow> side \<Rightarrow> nat \<Rightarrow> fill list \<Rightarrow> decimal \<Rightarrow> decimal \<Rightarrow> orderbook
     \<Rightarrow> orderbook \<times> fill list \<times> decimal" where
  "matchLoop incoming sd i fs execQty qtyToFill ob =
     (if i < length (oppositeBook sd ob) \<and> qtyToFill > 0 then
        (if \<not> pricesCross sd (oppositeBook sd ob ! i) incoming then (ob, fs, execQty)
         else if userId (oppositeBook sd ob ! i) = userId incoming
           then matchLoop incoming sd (i + 1) fs execQty qtyToFill ob
         else if filled (oppositeBook sd ob ! i)
                   + min qtyToFill (quantity (oppositeBook sd ob ! i) - filled (oppositeBook sd ob ! i))
                 = quantity (oppositeBook sd ob ! i)
           then matchLoop incoming sd i
                  (fs @ [mkFill (oppositeBook sd ob ! i)
                           (min qtyToFill (quantity (oppositeBook sd ob ! i) - filled (oppositeBook sd ob ! i)))
                           (lastTradeId ob)])
                  (execQty + min qtyToFill (quantity (oppositeBook sd ob ! i) - filled (oppositeBook sd ob ! i)))
                  (qtyToFill - min qtyToFill (quantity (oppositeBook sd ob ! i) - filled (oppositeBook sd ob ! i)))
                  (let ob' = executeTrade sd i
                       (min qtyToFill (quantity (oppositeBook sd ob ! i) - filled (oppositeBook sd ob ! i))) ob
                   in setOppositeBook sd (removeAt i (oppositeBook sd ob')) ob')
           else matchLoop incoming sd (i + 1)
                  (fs @ [mkFill (oppositeBook sd ob ! i)
                           (min qtyToFill (quantity (oppositeBook sd ob ! i) - filled (oppositeBook sd ob ! i)))
                           (lastTradeId ob)])
                  (execQty + min qtyToFill (quantity (oppositeBook sd ob ! i) - filled (oppositeBook sd ob ! i)))
                  (qtyToFill - min qtyToFill (quantity (oppositeBook sd ob ! i) - filled (oppositeBook sd ob ! i)))
                  (executeTrade sd i
                     (min qtyToFill (quantity (oppositeBook sd ob ! i) - filled (oppositeBook sd ob ! i))) ob))
      else (ob, fs, execQty))"
  by pat_completeness auto
termination
  by (relation "measure (\<lambda>(incoming, sd, i, fs, e, q, ob). length (oppositeBook sd ob) - i)")
     (auto simp: Let_def executeTrade_def oppositeBook_def setOppositeBook_def updateDepth_def removeAt_def)

declare matchLoop.simps [simp del]

definition matchOrder :: "order \<Rightarrow> side \<Rightarrow> orderbook \<Rightarrow> orderbook \<times> fill list \<times> decimal" where
  "matchOrder incomingOrder sd ob = matchLoop incomingOrder sd 0 [] 0 (quantity incomingOrder) ob"

text \<open>The body of the loop over the conflicts in \<^verbatim>\<open>addOrder\<close>.\<close>

definition cancelConflict :: "order \<Rightarrow> orderbook \<Rightarrow> orderbook" where
  "cancelConflict conflict ob =
     (if side conflict = Buy then fst (cancelBid conflict ob) else fst (cancelAsk conflict ob))"

text \<open>Step 4 of \<^verbatim>\<open>addOrder\<close>: the remainder of the order goes to its own side.\<close>

definition restOrder :: "order \<Rightarrow> orderbook \<Rightarrow> orderbook" where
  "restOrder ord ob =
     (let remaining = quantity ord - filled ord in
      if side ord = Buy
      then updateDepth Buy (price ord) remaining
             (ob\<lparr>bids := insertAt (findInsertIndex (bids ob) (price ord) Buy) ord (bids ob)\<rparr>)
      else updateDepth Sell (price ord) remaining
             (ob\<lparr>asks := insertAt (findInsertIndex (asks ob) (price ord) Sell) ord (asks ob)\<rparr>))"

definition addOrder :: "order \<Rightarrow> orderbook \<Rightarrow> orderbook \<times> AddOrderResult" where
  "addOrder ord ob =
     (let (wst, conflicts) = wouldSelfTrade ob ord in
      if wst \<and> stpMode ob = CANCEL_NEWEST then
        (ob, \<lparr>status = REJECTED, executedQty = 0, fills = [],
              rejectionReason = Some ''STP: Cancel Newest'', cancelledOrders = None\<rparr>)
      else
        (let ob1 = (if wst then fold cancelConflict conflicts ob else ob) in
         if wst \<and> stpMode ob1 = CANCEL_BOTH then
           (ob1, \<lparr>status = REJECTED, executedQty = 0, fills = [],
                  rejectionReason = Some ''STP: Cancel Both'',
                  cancelledOrders = Some (map orderId conflicts)\<rparr>)
         else
           (let (ob2, fs, execQty) = matchOrder ord (side ord) ob1;
                ord' = ord\<lparr>filled := execQty\<rparr>
            in if filled ord' < quantity ord' then
                 (restOrder ord' ob2,
                  \<lparr>status = (if execQty > 0 then PARTIALLY_FILLED else ACCEPTED),
                   executedQty = execQty, fills = fs,
                   rejectionReason = None, cancelledOrders = None\<rparr>)
               else
                 (ob2, \<lparr>status = ACCEPTED, executedQty = execQty, fills = fs,
                        rejectionReason = None, cancelledOrders = None\<rparr>))))"

definition getOpenOrders :: "string \<Rightarrow> orderbook \<Rightarrow> order list" where
  "getOpenOrders uid ob =
     filter (\<lambda>x. userId x = uid) (asks ob) @ filter (\<lambda>x. userId x = uid) (bids ob)"

text \<open>\<^verbatim>\<open>getDepth\<close> lists the entries of each cache with a positive quantity, sorted by
  price. The keys of a map are distinct, so the sorted list is determined by the map of
  those entries, which stands for it here.\<close>

definition positiveEntries :: "(decimal \<rightharpoonup> decimal) \<Rightarrow> (decimal \<rightharpoonup> decimal)" where
  "positiveEntries m = (\<lambda>p. case m p of None \<Rightarrow> None | Some q \<Rightarrow> if q > 0 then Some q else None)"

definition getDepth :: "orderbook \<Rightarrow> (decimal \<rightharpoonup> decimal) \<times> (decimal \<rightharpoonup> decimal)" where
  "getDepth ob = (positiveEntries (bidsDepth ob), positiveEntries (asksDepth ob))"

section \<open>Engine.ts\<close>

record balance =
  available :: decimal
  locked :: decimal

type_synonym UserBalance = "string \<rightharpoonup> balance"

type_synonym ledger = "string \<rightharpoonup> UserBalance"

record engine =
  orderbooks :: "orderbook list"
  balances :: ledger

text \<open>What the code throws: an \<^verbatim>\<open>Error\<close> with its message, the error of
  \<^verbatim>\<open>withdraw\<close> whose message quotes the available amount, and the \<^verbatim>\<open>TypeError\<close> of
  JavaScript for a property read or written on \<^verbatim>\<open>undefined\<close>.\<close>

datatype error = Error string | InsufficientBalance decimal | TypeError

fun message :: "error \<Rightarrow> string" where
  "message (Error m) = m"
| "message (InsufficientBalance a) = ''Insufficient balance. Available''"
| "message TypeError = ''Cannot read properties of undefined''"

text \<open>\<^verbatim>\<open>String.prototype.includes\<close>\<close>

fun includesText :: "string \<Rightarrow> string \<Rightarrow> bool" where
  "includesText [] sub = (sub = [])"
| "includesText (c # cs) sub = (take (length sub) (c # cs) = sub \<or> includesText cs sub)"

text \<open>\<^verbatim>\<open>market.split("_")[k]\<close>; an index past the end gives \<^verbatim>\<open>undefined\<close>, which as a
  property key reads \<^verbatim>\<open>"undefined"\<close>.\<close>

fun splitOn :: "char \<Rightarrow> string \<Rightarrow> string list" where
  "splitOn c [] = [[]]"
| "splitOn c (x # xs) =
     (if x = c then [] # splitOn c xs
      else (case splitOn c xs of [] \<Rightarrow> [[x]] | w # ws \<Rightarrow> (x # w) # ws))"

definition assetAt :: "string \<Rightarrow> nat \<Rightarrow> string" where
  "assetAt market k =
     (let ws = splitOn CHR ''_'' market in if k < length ws then ws ! k else ''undefined'')"

text \<open>The commands of \<^verbatim>\<open>MessageFromApi\<close> with the fields \<^verbatim>\<open>process\<close> reads, and the
  results of \<^verbatim>\<open>MessageToApi\<close>.\<close>

datatype MessageFromApi =
    CREATE_ORDER string decimal decimal side string
  | CANCEL_ORDER string string
  | ON_RAMP string decimal
  | GET_DEPTH string
  | GET_OPEN_ORDERS string string
  | GET_BALANCE string
  | WITHDRAW string decimal string

datatype MessageToApi =
    DEPTH "decimal \<rightharpoonup> decimal" "decimal \<rightharpoonup> decimal"
  | ORDER_PLACED string decimal "fill list"
  | ORDER_CANCELLED string decimal decimal
  | OPEN_ORDERS "order list"
  | BALANCE UserBalance
  | ON_RAMP_SUCCESS string decimal decimal
  | WITHDRAW_SUCCESS string decimal decimal string
  | WITHDRAW_FAILED string
  | ORDER_REJECTED string decimal decimal string string

text \<open>A statement that writes one component of \<^verbatim>\<open>userBalance[asset]\<close> of a user
  known to have an entry: it throws the \<^verbatim>\<open>TypeError\<close> when the asset is missing, and
  the ledger then keeps what was written before. A ledger operation returns the ledger
  it leaves behind and the error it threw, if any.\<close>

definition addAvailable :: "string \<Rightarrow> string \<Rightarrow> decimal \<Rightarrow> ledger \<Rightarrow> ledger \<times> error option" where
  "addAvailable uid asset v bal =
     (case bal uid of
        None \<Rightarrow> (bal, Some TypeError)
      | Some userBalance \<Rightarrow>
          (case userBalance asset of
             None \<Rightarrow> (bal, Some TypeError)
           | Some b \<Rightarrow> (bal(uid \<mapsto> userBalance(asset \<mapsto> b\<lparr>available := available b + v\<rparr>)), None)))"

definition subtractLocked :: "string \<Rightarrow> string \<Rightarrow> decimal \<Rightarrow> ledger \<Rightarrow> ledger \<times> error option" where
  "subtractLocked uid asset v bal =
     (case bal uid of
        None \<Rightarrow> (bal, Some TypeError)
      | Some userBalance \<Rightarrow>
          (case userBalance asset of
             None \<Rightarrow> (bal, Some TypeError)
           | Some b \<Rightarrow> (bal(uid \<mapsto> userBalance(asset \<mapsto> b\<lparr>locked := locked b - v\<rparr>)), None)))"

text \<open>Sequencing of two statements: the second runs if the first did not throw.\<close>

definition andThen ::
  "(ledger \<Rightarrow> ledger \<times> error option) \<Rightarrow> (ledger \<Rightarrow> ledger \<times> error option)
     \<Rightarrow> ledger \<Rightarrow> ledger \<times> error option" where
  "andThen f g bal = (case f bal of (bal', None) \<Rightarrow> g bal' | (bal', Some e) \<Rightarrow> (bal', Some e))"

text \<open>\<^verbatim>\<open>if (userBalance) { ... }\<close> for the user \<open>uid\<close>.\<close>

definition whenUser ::
  "string \<Rightarrow> (ledger \<Rightarrow> ledger \<times> error option) \<Rightarrow> ledger \<Rightarrow> ledger \<times> error option" where
  "whenUser uid f bal = (if bal uid = None then (bal, None) else f bal)"

text \<open>The body of \<^verbatim>\<open>fills.forEach\<close> in \<^verbatim>\<open>updateBalance\<close>: the settlement of one
  fill, for a taker on side \<open>sd\<close>.\<close>

definition settleFill :: "string \<Rightarrow> string \<Rightarrow> string \<Rightarrow> side \<Rightarrow> fill \<Rightarrow> ledger \<Rightarrow> ledger \<times> error option" where
  "settleFill uid base quote sd f =
     (let fillValue = qty f * fprice f in
      if sd = Buy then
        andThen
          (whenUser (otherUserId f)
             (andThen (addAvailable (otherUserId f) quote fillValue)
                      (subtractLocked (otherUserId f) base (qty f))))
          (whenUser uid
             (andThen (subtractLocked uid quote fillValue)
                      (addAvailable uid base (qty f))))
      else
        andThen
          (whenUser (otherUserId f)
             (andThen (subtractLocked (otherUserId f) quote fillValue)
                      (addAvailable (otherUserId f) base (qty f))))
          (whenUser uid
             (andThen (addAvailable uid quote fillValue)
                      (subtractLocked uid base (qty f)))))"

fun updateBalance ::
  "string \<Rightarrow> string \<Rightarrow> string \<Rightarrow> side \<Rightarrow> fill list \<Rightarrow> ledger \<Rightarrow> ledger \<times> error option" where
  "updateBalance uid base quote sd [] bal = (bal, None)"
| "updateBalance uid base quote sd (f # fs) bal =
     andThen (settleFill uid base quote sd f) (updateBalance uid base quote sd fs) bal"

text \<open>\<^verbatim>\<open>checkAndLockFunds\<close> throws before it writes, so it returns either the error or the
  new ledger. \<^verbatim>\<open>userBalance[asset]?.available || "0"\<close> reads \<open>0\<close> for a missing asset,
  and the assignment that follows then throws the \<^verbatim>\<open>TypeError\<close>.\<close>

definition checkAndLockFunds ::
  "string \<Rightarrow> string \<Rightarrow> side \<Rightarrow> string \<Rightarrow> decimal \<Rightarrow> decimal \<Rightarrow> ledger \<Rightarrow> error + ledger" where
  "checkAndLockFunds base quote sd uid p q bal =
     (case bal uid of
        None \<Rightarrow> Inl (Error ''User not found'')
      | Some userBalance \<Rightarrow>
          (let asset = (if sd = Buy then quote else base);
               required = (if sd = Buy then q * p else q);
               avail = (case userBalance asset of None \<Rightarrow> 0 | Some b \<Rightarrow> available b)
           in if avail < required then Inl (Error ''Insufficient funds'')
              else (case userBalance asset of
                      None \<Rightarrow> Inl TypeError
                    | Some b \<Rightarrow>
                        Inr (bal(uid \<mapsto> userBalance(asset \<mapsto>
                               \<lparr>available = avail - required, locked = locked b + required\<rparr>))))))"

definition unlockFunds ::
  "string \<Rightarrow> string \<Rightarrow> side \<Rightarrow> string \<Rightarrow> decimal \<Rightarrow> decimal \<Rightarrow> ledger \<Rightarrow> ledger \<times> error option" where
  "unlockFunds base quote sd uid p q =
     whenUser uid
       (if sd = Buy
        then andThen (subtractLocked uid quote (q * p)) (addAvailable uid quote (q * p))
        else andThen (subtractLocked uid base q) (addAvailable uid base q))"

definition onRamp :: "string \<Rightarrow> decimal \<Rightarrow> ledger \<Rightarrow> ledger" where
  "onRamp uid amount bal =
     (case bal uid of
        None \<Rightarrow> bal(uid \<mapsto> [BASE_CURRENCY \<mapsto> \<lparr>available = amount, locked = 0\<rparr>])
      | Some userBalance \<Rightarrow>
          (let b = (case userBalance BASE_CURRENCY of
                      None \<Rightarrow> \<lparr>available = 0, locked = 0\<rparr> | Some b \<Rightarrow> b)
           in bal(uid \<mapsto> userBalance(BASE_CURRENCY \<mapsto> b\<lparr>available := available b + amount\<rparr>))))"

definition withdraw :: "string \<Rightarrow> decimal \<Rightarrow> ledger \<Rightarrow> error + (ledger \<times> decimal)" where
  "withdraw uid amount bal =
     (case bal uid of
        None \<Rightarrow> Inl (Error ''User not found'')
      | Some userBalance \<Rightarrow>
          (case userBalance BASE_CURRENCY of
             None \<Rightarrow> Inl (Error ''User not found'')
           | Some b \<Rightarrow>
               if available b < amount then Inl (InsufficientBalance (available b))
               else Inr (bal(uid \<mapsto> userBalance(BASE_CURRENCY \<mapsto> b\<lparr>available := available b - amount\<rparr>)),
                         available b - amount)))"

definition setBaseBalances :: ledger where
  "setBaseBalances =
     [''1'' \<mapsto> [BASE_CURRENCY \<mapsto> \<lparr>available = 1000000, locked = 0\<rparr>,
                 ''TATA'' \<mapsto> \<lparr>available = 1000, locked = 0\<rparr>],
      ''2'' \<mapsto> [BASE_CURRENCY \<mapsto> \<lparr>available = 1000000, locked = 0\<rparr>,
                 ''TATA'' \<mapsto> \<lparr>available = 1000, locked = 0\<rparr>],
      ''5'' \<mapsto> [BASE_CURRENCY \<mapsto> \<lparr>available = 1000000, locked = 0\<rparr>,
                 ''TATA'' \<mapsto> \<lparr>available = 1000, locked = 0\<rparr>]]"

text \<open>The engine that the constructor builds without a snapshot.\<close>

definition newEngine :: engine where
  "newEngine =
     \<lparr>orderbooks = [newOrderbook ''TATA'' [] [] 0 0 None], balances = setBaseBalances\<rparr>"





text \<open>\<^verbatim>\<open>createOrder\<close>. The order id, drawn from \<^verbatim>\<open>Math.random\<close> in the source, is the
  parameter \<open>oid\<close>. The orderbook found by \<^verbatim>\<open>find\<close> is changed in place, that is at
  its index in the list. The calls after \<^verbatim>\<open>updateBalance\<close> only publish to Redis and
  leave the engine as it is. The function returns the engine it leaves behind and
  either the error thrown or the returned record.\<close>

definition createOrder ::
  "string \<Rightarrow> string \<Rightarrow> decimal \<Rightarrow> decimal \<Rightarrow> side \<Rightarrow> string \<Rightarrow> engine
     \<Rightarrow> engine \<times> (error + (decimal \<times> fill list \<times> string))" where
  "createOrder oid market p q sd uid e =
     (let baseAsset = assetAt market 0; quoteAsset = assetAt market 1 in
      case findIndex (\<lambda>b. ticker b = market) (orderbooks e) of
        None \<Rightarrow> (e, Inl (Error ''No orderbook found''))
      | Some k \<Rightarrow>
          (case checkAndLockFunds baseAsset quoteAsset sd uid p q (balances e) of
             Inl err \<Rightarrow> (e, Inl err)
           | Inr bal1 \<Rightarrow>
               (let ord = \<lparr>price = p, quantity = q, orderId = oid, filled = 0,
                           side = sd, userId = uid\<rparr>;
                    (ob', result) = addOrder ord (orderbooks e ! k);
                    e1 = e\<lparr>orderbooks := (orderbooks e)[k := ob'], balances := bal1\<rparr>
                in if status result = REJECTED then
                     (case unlockFunds baseAsset quoteAsset sd uid p q bal1 of
                        (bal2, Some err) \<Rightarrow> (e1\<lparr>balances := bal2\<rparr>, Inl err)
                      | (bal2, None) \<Rightarrow>
                          (e1\<lparr>balances := bal2\<rparr>,
                           Inl (Error (case rejectionReason result of
                                         None \<Rightarrow> ''Order rejected due to self-trade prevention''
                                       | Some r \<Rightarrow> if r = [] then ''Order rejected due to self-trade prevention'' else r))))
                   else
                     (case updateBalance uid baseAsset quoteAsset sd (fills result) bal1 of
                        (bal2, Some err) \<Rightarrow> (e1\<lparr>balances := bal2\<rparr>, Inl err)
                      | (bal2, None) \<Rightarrow>
                          (e1\<lparr>balances := bal2\<rparr>, Inr (executedQty result, fills result, oid))))))"

text \<open>The \<^verbatim>\<open>CANCEL_ORDER\<close> case of \<^verbatim>\<open>process\<close>, inside its \<^verbatim>\<open>try\<close>: the engine left
  behind and either the error thrown or the message sent.\<close>

definition cancelOrder :: "string \<Rightarrow> string \<Rightarrow> engine \<Rightarrow> engine \<times> (error + MessageToApi)" where
  "cancelOrder oid cancelMarket e =
     (let baseAsset = assetAt cancelMarket 0; quoteAsset = assetAt cancelMarket 1 in
      case findIndex (\<lambda>b. ticker b = cancelMarket) (orderbooks e) of
        None \<Rightarrow> (e, Inl (Error ''No orderbook found''))
      | Some k \<Rightarrow>
          (let cancelOrderbook = orderbooks e ! k in
           case (case find (\<lambda>x. orderId x = oid) (asks cancelOrderbook) of
                   Some ord \<Rightarrow> Some ord
                 | None \<Rightarrow> find (\<lambda>x. orderId x = oid) (bids cancelOrderbook)) of
             None \<Rightarrow> (e, Inl (Error ''No order found''))
           | Some ord \<Rightarrow>
               (let ob' = (if side ord = Buy then fst (cancelBid ord cancelOrderbook)
                           else fst (cancelAsk ord cancelOrderbook));
                    asset = (if side ord = Buy then quoteAsset else baseAsset);
                    leftQuantity = (if side ord = Buy then (quantity ord - filled ord) * price ord
                                    else quantity ord - filled ord);
                    bal' = (case balances e (userId ord) of
                              None \<Rightarrow> balances e
                            | Some userBalance \<Rightarrow>
                                (case userBalance asset of
                                   None \<Rightarrow> balances e
                                 | Some b \<Rightarrow>
                                     (balances e)(userId ord \<mapsto> userBalance(asset \<mapsto>
                                        \<lparr>available = available b + leftQuantity,
                                         locked = locked b - leftQuantity\<rparr>))))
                in (e\<lparr>orderbooks := (orderbooks e)[k := ob'], balances := bal'\<rparr>,
                    Inr (ORDER_CANCELLED oid 0 0)))))"

text \<open>\<^verbatim>\<open>process\<close>: the engine left behind and the messages passed to
  \<^verbatim>\<open>sendToApi\<close> for the client, in order.\<close>

fun process :: "string \<Rightarrow> MessageFromApi \<Rightarrow> engine \<Rightarrow> engine \<times> MessageToApi list" where
  "process oid (CREATE_ORDER market p q sd uid) e =
     (case createOrder oid market p q sd uid e of
        (e', Inr (execQty, fs, newId)) \<Rightarrow> (e', [ORDER_PLACED newId execQty fs])
      | (e', Inl err) \<Rightarrow>
          (let errorMessage = (if message err = [] then ''Order failed'' else message err);
               isSelfTradeRejection = includesText errorMessage ''SELF_TRADE_PREVENTION''
           in (e', [ORDER_REJECTED [] 0 0 errorMessage
                      (if isSelfTradeRejection then ''SELF_TRADE'' else ''ORDER_FAILED'')])))"
| "process oid (CANCEL_ORDER cancelId cancelMarket) e =
     (case cancelOrder cancelId cancelMarket e of
        (e', Inr msg) \<Rightarrow> (e', [msg])
      | (e', Inl err) \<Rightarrow> (e', []))"
| "process oid (GET_OPEN_ORDERS uid market) e =
     (case find (\<lambda>b. ticker b = market) (orderbooks e) of
        None \<Rightarrow> (e, [])
      | Some openOrderbook \<Rightarrow> (e, [OPEN_ORDERS (getOpenOrders uid openOrderbook)]))"
| "process oid (ON_RAMP uid amount) e =
     (let bal' = onRamp uid amount (balances e) in
      (e\<lparr>balances := bal'\<rparr>,
       [ON_RAMP_SUCCESS uid amount
          (case bal' uid of
             None \<Rightarrow> 0
           | Some userBalance \<Rightarrow>
               (case userBalance BASE_CURRENCY of None \<Rightarrow> 0 | Some b \<Rightarrow> available b))]))"
| "process oid (WITHDRAW uid amount txnId) e =
     (case withdraw uid amount (balances e) of
        Inr (bal', newBalance) \<Rightarrow>
          (e\<lparr>balances := bal'\<rparr>, [WITHDRAW_SUCCESS uid amount newBalance txnId])
      | Inl err \<Rightarrow> (e, [WITHDRAW_FAILED (message err)]))"
| "process oid (GET_DEPTH market) e =
     (case find (\<lambda>b. ticker b = market) (orderbooks e) of
        None \<Rightarrow> (e, [DEPTH Map.empty Map.empty])
      | Some ob \<Rightarrow> (e, [DEPTH (fst (getDepth ob)) (snd (getDepth ob))]))"
| "process oid (GET_BALANCE uid) e =
     (case balances e uid of
        None \<Rightarrow> (e, [BALANCE Map.empty])
      | Some userBalance \<Rightarrow> (e, [BALANCE userBalance]))"

text \<open>A sequence of commands, each with the order id drawn for it.\<close>

fun processAll :: "(string \<times> MessageFromApi) list \<Rightarrow> engine \<Rightarrow> engine" where
  "processAll [] e = e"
| "processAll ((oid, m) # rest) e = processAll rest (fst (process oid m e))"

section \<open>Notions used to state and prove the properties\<close>

definition priceOrder :: "side \<Rightarrow> order \<Rightarrow> order \<Rightarrow> bool" where
  "priceOrder sd x y = (if sd = Buy then price x \<ge> price y else price x \<le> price y)"


definition ownBook :: "side \<Rightarrow> orderbook \<Rightarrow> order list" where
  "ownBook sd ob = (if sd = Buy then bids ob else asks ob)"

definition oppDepth :: "side \<Rightarrow> orderbook \<Rightarrow> (decimal \<rightharpoonup> decimal)" where
  "oppDepth sd ob = (if sd = Buy then asksDepth ob else bidsDepth ob)"

definition ownDepth :: "side \<Rightarrow> orderbook \<Rightarrow> (decimal \<rightharpoonup> decimal)" where
  "ownDepth sd ob = (if sd = Buy then bidsDepth ob else asksDepth ob)"

definition bump :: "(decimal \<rightharpoonup> decimal) \<Rightarrow> decimal \<Rightarrow> decimal \<Rightarrow> (decimal \<rightharpoonup> decimal)" where
  "bump m p d = (if getOr0 m p + d \<le> 0 then m(p := None) else m(p \<mapsto> getOr0 m p + d))"

definition otherSide :: "side \<Rightarrow> side" where
  "otherSide sd = (if sd = Buy then Sell else Buy)"

definition rejectedNewest :: AddOrderResult where
  "rejectedNewest = \<lparr>status = REJECTED, executedQty = 0, fills = [],
      rejectionReason = Some ''STP: Cancel Newest'', cancelledOrders = None\<rparr>"

definition finishOrder :: "order \<Rightarrow> orderbook \<times> fill list \<times> decimal \<Rightarrow> orderbook \<times> AddOrderResult" where
  "finishOrder ord r =
     (case r of (ob2, fs, execQty) \<Rightarrow>
        if execQty < quantity ord then
          (restOrder (ord\<lparr>filled := execQty\<rparr>) ob2,
           \<lparr>status = (if execQty > 0 then PARTIALLY_FILLED else ACCEPTED),
            executedQty = execQty, fills = fs, rejectionReason = None, cancelledOrders = None\<rparr>)
        else (ob2, \<lparr>status = ACCEPTED, executedQty = execQty, fills = fs,
                    rejectionReason = None, cancelledOrders = None\<rparr>))"

definition okey :: "order \<Rightarrow> decimal \<times> string \<times> string" where
  "okey x = (price x, orderId x, userId x)"

definition fillOf :: "side \<Rightarrow> order \<Rightarrow> order list \<Rightarrow> fill \<Rightarrow> bool" where
  "fillOf sd incoming book f \<longleftrightarrow>
     (\<exists>mk\<in>set book. fprice f = price mk \<and> markerOrderId f = orderId mk \<and> otherUserId f = userId mk
        \<and> pricesCross sd mk incoming \<and> userId mk \<noteq> userId incoming)"

definition fillOrder :: "side \<Rightarrow> fill \<Rightarrow> fill \<Rightarrow> bool" where
  "fillOrder sd f g = (if sd = Buy then fprice f \<le> fprice g else fprice f \<ge> fprice g)"

definition fillBefore :: "side \<Rightarrow> fill \<Rightarrow> order \<Rightarrow> bool" where
  "fillBefore sd f x = (if sd = Buy then fprice f \<le> price x else fprice f \<ge> price x)"

definition sweepBook :: orderbook where
  "sweepBook = newOrderbook ''TATA'' []
     [\<lparr>price = 100, quantity = 2, orderId = ''a1'', filled = 0, side = Sell, userId = ''2''\<rparr>,
      \<lparr>price = 101, quantity = 3, orderId = ''a2'', filled = 0, side = Sell, userId = ''5''\<rparr>]
     0 0 None"

definition sweepOrder :: order where
  "sweepOrder = \<lparr>price = 105, quantity = 4, orderId = ''b1'', filled = 0, side = Buy, userId = ''1''\<rparr>"

definition noOwnCross :: "side \<Rightarrow> order \<Rightarrow> order list \<Rightarrow> bool" where
  "noOwnCross sd inc book \<longleftrightarrow> (\<forall>x\<in>set book. pricesCross sd x inc \<longrightarrow> userId x \<noteq> userId inc)"

definition sidesOk :: "orderbook \<Rightarrow> bool" where
  "sidesOk ob \<longleftrightarrow> (\<forall>x\<in>set (bids ob). side x = Buy) \<and> (\<forall>x\<in>set (asks ob). side x = Sell)"










definition restingOpen :: "orderbook \<Rightarrow> bool" where
  "restingOpen ob \<longleftrightarrow> (\<forall>x\<in>set (bids ob) \<union> set (asks ob). filled x < quantity x)"


definition availOf :: "ledger \<Rightarrow> string \<Rightarrow> string \<Rightarrow> decimal" where
  "availOf bal u a = (case bal u of None \<Rightarrow> 0 | Some ub \<Rightarrow> (case ub a of None \<Rightarrow> 0 | Some b \<Rightarrow> available b))"

definition lockedOf :: "ledger \<Rightarrow> string \<Rightarrow> string \<Rightarrow> decimal" where
  "lockedOf bal u a = (case bal u of None \<Rightarrow> 0 | Some ub \<Rightarrow> (case ub a of None \<Rightarrow> 0 | Some b \<Rightarrow> locked b))"




definition hasAssets :: "ledger \<Rightarrow> string \<Rightarrow> string \<Rightarrow> bool" where
  "hasAssets bal base quote \<longleftrightarrow> (\<forall>u ub. bal u = Some ub \<longrightarrow> ub base \<noteq> None \<and> ub quote \<noteq> None)"

definition hasEntry :: "ledger \<Rightarrow> string \<Rightarrow> string \<Rightarrow> bool" where
  "hasEntry bal u a \<longleftrightarrow> (\<exists>ub. bal u = Some ub \<and> ub a \<noteq> None)"

text \<open>A ledger step keeps the users and their assets; \<open>stepOk\<close> collects what every
  statement and every sequence of statements preserves.\<close>

definition sameShape :: "ledger \<Rightarrow> ledger \<Rightarrow> bool" where
  "sameShape bal bal' \<longleftrightarrow> (\<forall>u. (bal' u = None \<longleftrightarrow> bal u = None)
      \<and> (\<forall>a. hasEntry bal' u a \<longleftrightarrow> hasEntry bal u a))"



text \<open>Statements keep the users and the assets of the ledger, whether they throw or not.\<close>

definition keepsShape :: "(ledger \<Rightarrow> ledger \<times> error option) \<Rightarrow> bool" where
  "keepsShape f \<longleftrightarrow> (\<forall>bal. sameShape bal (fst (f bal)))"

definition restValue :: "string \<Rightarrow> order list \<Rightarrow> decimal" where
  "restValue w xs = sum_list (map (\<lambda>x. if userId x = w then (quantity x - filled x) * price x else 0) xs)"

definition fillValue :: "string \<Rightarrow> fill list \<Rightarrow> decimal" where
  "fillValue w fs = sum_list (map (\<lambda>f. if otherUserId f = w then qty f * fprice f else 0) fs)"

definition fillsValue :: "fill list \<Rightarrow> decimal" where
  "fillsValue fs = sum_list (map (\<lambda>f. qty f * fprice f) fs)"

definition lockAsset :: "side \<Rightarrow> string \<Rightarrow> string \<Rightarrow> string" where
  "lockAsset sd base quote = (if sd = Buy then quote else base)"

definition lockAmount :: "side \<Rightarrow> decimal \<Rightarrow> decimal \<Rightarrow> decimal" where
  "lockAmount sd p q = (if sd = Buy then q * p else q)"




definition newOrder :: "string \<Rightarrow> decimal \<Rightarrow> decimal \<Rightarrow> side \<Rightarrow> string \<Rightarrow> order" where
  "newOrder oid p q sd uid = \<lparr>price = p, quantity = q, orderId = oid, filled = 0, side = sd, userId = uid\<rparr>"

text \<open>The ledger update of the \<^verbatim>\<open>CANCEL_ORDER\<close> case: guarded by
  \<^verbatim>\<open>userBalance && userBalance[asset]\<close>.\<close>

definition refund :: "ledger \<Rightarrow> string \<Rightarrow> string \<Rightarrow> decimal \<Rightarrow> ledger" where
  "refund bal u a left =
     (case bal u of
        None \<Rightarrow> bal
      | Some userBalance \<Rightarrow>
          (case userBalance a of
             None \<Rightarrow> bal
           | Some b \<Rightarrow> bal(u \<mapsto> userBalance(a \<mapsto>
               \<lparr>available = available b + left, locked = locked b - left\<rparr>))))"

definition foundOrder :: "string \<Rightarrow> orderbook \<Rightarrow> order option" where
  "foundOrder oid ob =
     (case find (\<lambda>x. orderId x = oid) (asks ob) of
        Some ord \<Rightarrow> Some ord
      | None \<Rightarrow> find (\<lambda>x. orderId x = oid) (bids ob))"

definition cancelled :: "order \<Rightarrow> orderbook \<Rightarrow> orderbook" where
  "cancelled ord ob = (if side ord = Buy then fst (cancelBid ord ob) else fst (cancelAsk ord ob))"

definition leftOf :: "order \<Rightarrow> decimal" where
  "leftOf ord = (if side ord = Buy then (quantity ord - filled ord) * price ord
                 else quantity ord - filled ord)"










text \<open>\<open>takesAtMost f u a c\<close>: whatever \<open>f\<close> does, thrown error or not, the locked amount of
  asset \<open>a\<close> of user \<open>u\<close> goes down by at most \<open>c\<close>.\<close>

definition takesAtMost :: "(ledger \<Rightarrow> ledger \<times> error option) \<Rightarrow> string \<Rightarrow> string \<Rightarrow> decimal \<Rightarrow> bool" where
  "takesAtMost f u a c \<longleftrightarrow> (\<forall>bal. lockedOf bal u a - c \<le> lockedOf (fst (f bal)) u a)"

text \<open>\<open>takesExactly f u a c\<close>: when user \<open>u\<close> has an entry and \<open>f\<close> runs through, the
  locked amount of asset \<open>a\<close> of user \<open>u\<close> goes down by exactly \<open>c\<close>.\<close>

definition takesExactly :: "(ledger \<Rightarrow> ledger \<times> error option) \<Rightarrow> string \<Rightarrow> string \<Rightarrow> decimal \<Rightarrow> bool" where
  "takesExactly f u a c \<longleftrightarrow>
     (\<forall>bal. bal u \<noteq> None \<and> snd (f bal) = None \<longrightarrow> lockedOf (fst (f bal)) u a = lockedOf bal u a - c)"

definition payerCost :: "side \<Rightarrow> string \<Rightarrow> fill \<Rightarrow> string \<Rightarrow> decimal" where
  "payerCost sd uid f w =
     (if sd = Buy then (if w = uid then qty f * fprice f else 0)
      else (if w = otherUserId f then qty f * fprice f else 0))"

definition bothSides :: "side \<Rightarrow> (order \<Rightarrow> bool) \<Rightarrow> (order \<Rightarrow> bool) \<Rightarrow> orderbook \<Rightarrow> bool" where
  "bothSides sd Qown Qopp ob \<longleftrightarrow>
     (\<forall>x\<in>set (ownBook sd ob). Qown x) \<and> (\<forall>x\<in>set (oppositeBook sd ob). Qopp x)"

text \<open>The state of a book of the market \<^verbatim>\<open>TATA_INR\<close> as the engine keeps it: it is
  in the mode the engine creates its books in, bids rest on the bid side and asks on the ask
  side, every resting order has quantity left and a positive price.\<close>

definition marketBook :: "orderbook \<Rightarrow> bool" where
  "marketBook ob \<longleftrightarrow>
     baseAsset ob = ''TATA'' \<and> stpMode ob = CANCEL_NEWEST \<and> sidesOk ob \<and> restingOpen ob
     \<and> (\<forall>x\<in>set (bids ob) \<union> set (asks ob). 0 < price x)"

text \<open>The value of the bids of user \<open>u\<close> that rest on the books: what is left of each
  at its limit price.\<close>

definition restingBidValue :: "engine \<Rightarrow> string \<Rightarrow> decimal" where
  "restingBidValue e u = sum_list (map (\<lambda>ob. restValue u (bids ob)) (orderbooks e))"

definition excessLocked :: "engine \<Rightarrow> string \<Rightarrow> decimal" where
  "excessLocked e u = lockedOf (balances e) u BASE_CURRENCY - restingBidValue e u"

definition marketEngine :: "engine \<Rightarrow> bool" where
  "marketEngine e \<longleftrightarrow> length (orderbooks e) = 1 \<and> list_all marketBook (orderbooks e)"

fun positiveOrder :: "MessageFromApi \<Rightarrow> bool" where
  "positiveOrder (CREATE_ORDER market p q sd uid) \<longleftrightarrow> 0 < p \<and> 0 < q"
| "positiveOrder c \<longleftrightarrow> True"

definition askEngine :: engine where
  "askEngine = fst (process ''a'' (CREATE_ORDER ''TATA_INR'' 90 10 Sell ''2'') newEngine)"

definition cheapFill :: fill where
  "cheapFill = \<lparr>fprice = 90, qty = 10, tradeId = 0, otherUserId = ''2'', markerOrderId = ''a''\<rparr>"

definition laterCommands :: "(string \<times> MessageFromApi) list" where
  "laterCommands =
     [(''c'', CANCEL_ORDER ''b'' ''TATA_INR''),
      (''d'', CREATE_ORDER ''TATA_INR'' 95 1 Buy ''1''),
      (''e'', CANCEL_ORDER ''d'' ''TATA_INR''),
      (''f'', WITHDRAW ''1'' 5 ''t'')]"

definition residueCommands :: "(string \<times> MessageFromApi) list" where
  "residueCommands =
     [(''a'', CREATE_ORDER ''TATA_INR'' 90 10 Sell ''2''),
      (''b'', CREATE_ORDER ''TATA_INR'' 100 10 Buy ''1'')]"

definition residueEngine :: engine where
  "residueEngine = fst (createOrder ''b'' ''TATA_INR'' 100 10 Buy ''1'' askEngine)"

section \<open>The fresh engine at concrete commands\<close>

lemmas fresh_engine_defs =
  newEngine_def newOrderbook_def rebuildDepthCache_def sortOrders_def BASE_CURRENCY_def
  setBaseBalances_def ticker_def quoteAsset_def assetAt_def

lemmas create_order_defs =
  findInsertLoop.simps matchLoop.simps createOrder_def checkAndLockFunds_def addOrder_def wouldSelfTrade_def oppositeBook_def
  matchOrder_def restOrder_def findInsertIndex_def insertAt_def updateDepth_def getOr0_def

text \<open>
  Claim C6. Every command should be answered by exactly one result message, also when a
  \<^verbatim>\<open>CANCEL_ORDER\<close> names an unknown market or an order that does not rest in the book.
  On the fresh engine a cancel for an order that is not in the book, a cancel for a market
  that does not exist and a \<^verbatim>\<open>GET_OPEN_ORDERS\<close> for such a market leave the engine as it
  is and send no message at all: the \<^verbatim>\<open>catch\<close> blocks of these two cases only log,
  where those of \<^verbatim>\<open>GET_DEPTH\<close>, \<^verbatim>\<open>GET_BALANCE\<close>, \<^verbatim>\<open>CREATE_ORDER\<close> and \<^verbatim>\<open>WITHDRAW\<close>
  send a result.
\<close>

theorem cancel_unknown_sends_no_result:
  "process ''id0'' (CANCEL_ORDER ''no-such-order'' ''TATA_INR'') newEngine = (newEngine, [])
   \<and> process ''id0'' (CANCEL_ORDER ''no-such-order'' ''TATA_USD'') newEngine = (newEngine, [])
   \<and> process ''id0'' (GET_OPEN_ORDERS ''1'' ''TATA_USD'') newEngine = (newEngine, [])"
  by (simp add: cancelOrder_def fresh_engine_defs)

text \<open>
  Claim C8. A \<^verbatim>\<open>CREATE_ORDER\<close> whose price or quantity is not positive should be
  rejected with \<^verbatim>\<open>ORDER_REJECTED\<close> and code \<^verbatim>\<open>ORDER_FAILED\<close>, with the book and the
  balances untouched. On the fresh engine a buy of quantity \<open>-5\<close> at price \<open>100\<close> by
  user 1 is answered with \<^verbatim>\<open>ORDER_PLACED\<close> and moves 500 INR of the user, and a sell of
  quantity \<open>5\<close> at price \<open>0\<close> is answered with \<^verbatim>\<open>ORDER_PLACED\<close> and rests on the asks.
\<close>

theorem nonpositive_order_is_placed:
  "snd (process ''id1'' (CREATE_ORDER ''TATA_INR'' 100 (- 5) Buy ''1'') newEngine)
     = [ORDER_PLACED ''id1'' 0 []]
   \<and> map_option (\<lambda>ub. ub ''INR'')
        (balances (fst (process ''id1'' (CREATE_ORDER ''TATA_INR'' 100 (- 5) Buy ''1'') newEngine)) ''1'')
     = Some (Some \<lparr>available = 1000500, locked = - 500\<rparr>)
   \<and> snd (process ''id2'' (CREATE_ORDER ''TATA_INR'' 0 5 Sell ''1'') newEngine)
     = [ORDER_PLACED ''id2'' 0 []]
   \<and> map asks (orderbooks (fst (process ''id2'' (CREATE_ORDER ''TATA_INR'' 0 5 Sell ''1'') newEngine)))
     = [[\<lparr>price = 0, quantity = 5, orderId = ''id2'', filled = 0, side = Sell, userId = ''1''\<rparr>]]"
  by (simp add: fresh_engine_defs create_order_defs Let_def)

text \<open>
  Claim C4. No component of a balance should ever be negative at a command boundary.
  After the single command ``user 1 buys quantity \<open>-5\<close> at price \<open>100\<close>'' on the fresh
  engine, whose seed balances are all non-negative, the locked INR of user 1 is \<open>-500\<close>:
  \<^verbatim>\<open>checkAndLockFunds\<close> compares the available amount with the negative product and
  then moves it.
\<close>

theorem negative_quantity_makes_locked_negative:
  "(case balances (fst (process ''id1'' (CREATE_ORDER ''TATA_INR'' 100 (- 5) Buy ''1'') newEngine)) ''1'' of
      Some ub \<Rightarrow> (case ub ''INR'' of Some b \<Rightarrow> locked b | None \<Rightarrow> 0)
    | None \<Rightarrow> 0) = - 500"
  by (simp add: fresh_engine_defs create_order_defs Let_def)


lemma sorted_wrt_take_drop:
  assumes "sorted_wrt R xs"
  shows "sorted_wrt R (take i xs) \<and> sorted_wrt R (drop i xs)
       \<and> (\<forall>x\<in>set (take i xs). \<forall>y\<in>set (drop i xs). R x y)"
proof -
  have "sorted_wrt R (take i xs @ drop i xs)" using assms by simp
  then show ?thesis unfolding sorted_wrt_append by blast
qed



lemma set_insertAt [simp]: "set (insertAt i x xs) = insert x (set xs)"
proof -
  have "set (take i xs) \<union> set (drop i xs) = set xs"
    by (metis append_take_drop_id set_append)
  then show ?thesis by (auto simp: insertAt_def)
qed

lemma set_removeAt_subset: "set (removeAt i xs) \<subseteq> set xs"
  by (auto simp: removeAt_def dest: in_set_takeD in_set_dropD)

lemma sorted_wrt_removeAt: "sorted_wrt R xs \<Longrightarrow> sorted_wrt R (removeAt i xs)"
proof -
  assume s: "sorted_wrt R xs"
  have a: "sorted_wrt R (take i xs)" "\<forall>x\<in>set (take i xs). \<forall>y\<in>set (drop i xs). R x y"
    using sorted_wrt_take_drop[OF s, of i] by auto
  have b: "sorted_wrt R (drop (Suc i) xs)" using s by (rule sorted_wrt_drop)
  have "set (drop (Suc i) xs) \<subseteq> set (drop i xs)" by (simp add: set_drop_subset_set_drop)
  with a b show ?thesis by (auto simp: removeAt_def sorted_wrt_append)
qed

lemmas side_acc_defs = oppositeBook_def ownBook_def oppDepth_def ownDepth_def setOppositeBook_def

lemma oppositeBook_setOppositeBook [simp]: "oppositeBook sd (setOppositeBook sd book ob) = book"
  and ownBook_setOppositeBook [simp]: "ownBook sd (setOppositeBook sd book ob) = ownBook sd ob"
  and oppDepth_setOppositeBook [simp]: "oppDepth sd' (setOppositeBook sd book ob) = oppDepth sd' ob"
  and ownDepth_setOppositeBook [simp]: "ownDepth sd' (setOppositeBook sd book ob) = ownDepth sd' ob"
  and stpMode_setOppositeBook [simp]: "stpMode (setOppositeBook sd book ob) = stpMode ob"
  and lastTradeId_setOppositeBook [simp]: "lastTradeId (setOppositeBook sd book ob) = lastTradeId ob"
  and baseAsset_setOppositeBook [simp]: "baseAsset (setOppositeBook sd book ob) = baseAsset ob"
  by (cases sd; cases sd'; simp add: side_acc_defs)+

lemma updateDepth_fields [simp]:
  "bids (updateDepth s p d ob) = bids ob"
  "asks (updateDepth s p d ob) = asks ob"
  "stpMode (updateDepth s p d ob) = stpMode ob"
  "lastTradeId (updateDepth s p d ob) = lastTradeId ob"
  "baseAsset (updateDepth s p d ob) = baseAsset ob"
  by (simp_all add: updateDepth_def Let_def)

lemma updateDepth_books [simp]:
  "oppositeBook sd (updateDepth s p d ob) = oppositeBook sd ob"
  "ownBook sd (updateDepth s p d ob) = ownBook sd ob"
  by (simp_all add: side_acc_defs)

lemma updateDepth_depth:
  "bidsDepth (updateDepth s p d ob) = (if s = Buy then bump (bidsDepth ob) p d else bidsDepth ob)"
  "asksDepth (updateDepth s p d ob) = (if s = Buy then asksDepth ob else bump (asksDepth ob) p d)"
  by (simp_all add: updateDepth_def Let_def bump_def)

lemma updateDepth_oppDepth [simp]:
  "oppDepth sd (updateDepth (otherSide sd) p d ob) = bump (oppDepth sd ob) p d"
  "ownDepth sd (updateDepth (otherSide sd) p d ob) = ownDepth sd ob"
  "ownDepth sd (updateDepth sd p d ob) = bump (ownDepth sd ob) p d"
  "oppDepth sd (updateDepth sd p d ob) = oppDepth sd ob"
  by (cases sd; simp add: side_acc_defs otherSide_def updateDepth_depth)+

lemma executeTrade_fields [simp]:
  "oppositeBook sd (executeTrade sd i fq ob)
     = (oppositeBook sd ob)[i := (oppositeBook sd ob ! i)\<lparr>filled := filled (oppositeBook sd ob ! i) + fq\<rparr>]"
  "ownBook sd (executeTrade sd i fq ob) = ownBook sd ob"
  "oppDepth sd (executeTrade sd i fq ob) = bump (oppDepth sd ob) (price (oppositeBook sd ob ! i)) (- fq)"
  "ownDepth sd (executeTrade sd i fq ob) = ownDepth sd ob"
  "stpMode (executeTrade sd i fq ob) = stpMode ob"
  "lastTradeId (executeTrade sd i fq ob) = lastTradeId ob + 1"
  "baseAsset (executeTrade sd i fq ob) = baseAsset ob"
  by (cases sd; simp add: executeTrade_def Let_def side_acc_defs updateDepth_depth)+

text \<open>The invariant rule of the matching loop.\<close>

lemma matchLoop_rule:
  assumes init: "P i fs e q ob"
    and skip: "\<And>i fs e q ob. P i fs e q ob \<Longrightarrow> i < length (oppositeBook sd ob) \<Longrightarrow> q > 0
        \<Longrightarrow> pricesCross sd (oppositeBook sd ob ! i) incoming
        \<Longrightarrow> userId (oppositeBook sd ob ! i) = userId incoming \<Longrightarrow> P (i + 1) fs e q ob"
    and fill: "\<And>i fs e q ob mk fq ob'. P i fs e q ob \<Longrightarrow> i < length (oppositeBook sd ob) \<Longrightarrow> q > 0
        \<Longrightarrow> mk = oppositeBook sd ob ! i \<Longrightarrow> pricesCross sd mk incoming
        \<Longrightarrow> userId mk \<noteq> userId incoming \<Longrightarrow> fq = min q (quantity mk - filled mk)
        \<Longrightarrow> ob' = executeTrade sd i fq ob
        \<Longrightarrow> (if filled mk + fq = quantity mk
             then P i (fs @ [mkFill mk fq (lastTradeId ob)]) (e + fq) (q - fq)
                    (setOppositeBook sd (removeAt i (oppositeBook sd ob')) ob')
             else P (i + 1) (fs @ [mkFill mk fq (lastTradeId ob)]) (e + fq) (q - fq) ob')"
  shows "\<exists>i' q'. P i' (fst (snd (matchLoop incoming sd i fs e q ob)))
                    (snd (snd (matchLoop incoming sd i fs e q ob))) q'
                    (fst (matchLoop incoming sd i fs e q ob))
          \<and> \<not> (i' < length (oppositeBook sd (fst (matchLoop incoming sd i fs e q ob))) \<and> q' > 0
               \<and> pricesCross sd (oppositeBook sd (fst (matchLoop incoming sd i fs e q ob)) ! i') incoming)"
  using init skip fill
proof (induction incoming sd i fs e q ob rule: matchLoop.induct)
  case (1 incoming sd i fs e q ob)
  note init = "1.prems"(1) and skip = "1.prems"(2) and fill = "1.prems"(3)
  let ?mk = "oppositeBook sd ob ! i"
  let ?fq = "min q (quantity ?mk - filled ?mk)"
  let ?ob' = "executeTrade sd i ?fq ob"
  let ?f = "mkFill ?mk ?fq (lastTradeId ob)"
  consider (stop) "\<not> (i < length (oppositeBook sd ob) \<and> q > 0 \<and> pricesCross sd ?mk incoming)"
    | (own) "i < length (oppositeBook sd ob)" "q > 0" "pricesCross sd ?mk incoming"
            "userId ?mk = userId incoming"
    | (rem) "i < length (oppositeBook sd ob)" "q > 0" "pricesCross sd ?mk incoming"
            "userId ?mk \<noteq> userId incoming" "filled ?mk + ?fq = quantity ?mk"
    | (keep) "i < length (oppositeBook sd ob)" "q > 0" "pricesCross sd ?mk incoming"
            "userId ?mk \<noteq> userId incoming" "filled ?mk + ?fq \<noteq> quantity ?mk"
    by blast
  then show ?case
  proof cases
    case stop
    then have "matchLoop incoming sd i fs e q ob = (ob, fs, e)"
      by (subst matchLoop.simps) auto
    with stop init show ?thesis by auto
  next
    case own
    then have eq: "matchLoop incoming sd i fs e q ob = matchLoop incoming sd (i + 1) fs e q ob"
      by (subst matchLoop.simps) (simp only: simp_thms if_True if_False Let_def)
    have c: "i < length (oppositeBook sd ob) \<and> 0 < q" using own by simp
    have c2: "\<not> \<not> pricesCross sd ?mk incoming" using own by simp
    show ?thesis
      unfolding eq
      by (rule "1.IH"(1)[OF c c2 own(4) skip[OF init own] skip fill])
  next
    case rem
    then have eq: "matchLoop incoming sd i fs e q ob
        = matchLoop incoming sd i (fs @ [?f]) (e + ?fq) (q - ?fq)
            (setOppositeBook sd (removeAt i (oppositeBook sd ?ob')) ?ob')"
      by (subst matchLoop.simps) (simp only: simp_thms if_True if_False Let_def)
    have c: "i < length (oppositeBook sd ob) \<and> 0 < q" using rem by simp
    have c2: "\<not> \<not> pricesCross sd ?mk incoming" using rem by simp
    have P': "P i (fs @ [?f]) (e + ?fq) (q - ?fq)
            (setOppositeBook sd (removeAt i (oppositeBook sd ?ob')) ?ob')"
      using fill[OF init rem(1,2) refl rem(3,4) refl refl] rem(5) by (simp only: if_True simp_thms)
    show ?thesis
      unfolding eq
      by (rule "1.IH"(2)[OF c c2 rem(4) rem(5), unfolded Let_def, OF P' skip fill])
  next
    case keep
    then have eq: "matchLoop incoming sd i fs e q ob
        = matchLoop incoming sd (i + 1) (fs @ [?f]) (e + ?fq) (q - ?fq) ?ob'"
      by (subst matchLoop.simps) (simp only: simp_thms if_True if_False Let_def)
    have c: "i < length (oppositeBook sd ob) \<and> 0 < q" using keep by simp
    have c2: "\<not> \<not> pricesCross sd ?mk incoming" using keep by simp
    have P': "P (i + 1) (fs @ [?f]) (e + ?fq) (q - ?fq) ?ob'"
      using fill[OF init keep(1,2) refl keep(3,4) refl refl] keep(5) by (simp only: if_False simp_thms)
    show ?thesis
      unfolding eq
      by (rule "1.IH"(3)[OF c c2 keep(4) keep(5) P' skip fill])
  qed
qed

lemma quoteAsset_const [simp]: "quoteAsset ob = BASE_CURRENCY"
  by (simp add: quoteAsset_def)

lemma ticker_TATA: "baseAsset ob = ''TATA'' \<Longrightarrow> ticker ob = ''TATA_INR''"
  by (simp add: ticker_def BASE_CURRENCY_def)

subsection \<open>findIndex and removeAt\<close>


lemma findIndex_None: "findIndex P xs = None \<longleftrightarrow> (\<forall>x\<in>set xs. \<not> P x)"
  by (induction xs) auto

lemma nth_removeAt:
  "k < length xs - 1 \<Longrightarrow> removeAt i xs ! k = (if k < i then xs ! k else xs ! Suc k)"
  by (auto simp: removeAt_def nth_append min_def)

lemma length_removeAt [simp]: "i < length xs \<Longrightarrow> length (removeAt i xs) = length xs - 1"
  by (simp add: removeAt_def)

lemma removeAt_Cons [simp]:
  "removeAt 0 (x # xs) = xs" "removeAt (Suc i) (x # xs) = x # removeAt i xs"
  by (simp_all add: removeAt_def)

lemma removeAt_beyond [simp]: "length xs \<le> i \<Longrightarrow> removeAt i xs = xs"
  by (simp add: removeAt_def)

lemma map_removeAt: "map f (removeAt i xs) = removeAt i (map f xs)"
  by (simp add: removeAt_def take_map drop_map)

lemma sum_list_removeAt:
  fixes f :: "'a \<Rightarrow> rat"
  shows "i < length xs \<Longrightarrow> sum_list (map f (removeAt i xs)) = sum_list (map f xs) - f (xs ! i)"
proof (induction xs arbitrary: i)
  case Nil then show ?case by simp
next
  case (Cons x xs) then show ?case by (cases i) auto
qed

lemma filter_removeAt:
  "i < length xs \<Longrightarrow> \<not> P (xs ! i) \<Longrightarrow> filter P (removeAt i xs) = filter P xs"
proof (induction xs arbitrary: i)
  case Nil then show ?case by simp
next
  case (Cons x xs) then show ?case by (cases i) auto
qed

subsection \<open>Cancellation\<close>

lemma cancelBid_unfold:
  "cancelBid x ob =
     (case findIndex (\<lambda>y. orderId y = orderId x) (bids ob) of
        None \<Rightarrow> (ob, None)
      | Some i \<Rightarrow> ((updateDepth Buy (price (bids ob ! i)) (- (quantity (bids ob ! i) - filled (bids ob ! i))) ob)
                      \<lparr>bids := removeAt i (bids ob)\<rparr>, Some (price (bids ob ! i))))"
  by (simp add: cancelBid_def Let_def split: option.splits)

lemma cancelAsk_unfold:
  "cancelAsk x ob =
     (case findIndex (\<lambda>y. orderId y = orderId x) (asks ob) of
        None \<Rightarrow> (ob, None)
      | Some i \<Rightarrow> ((updateDepth Sell (price (asks ob ! i)) (- (quantity (asks ob ! i) - filled (asks ob ! i))) ob)
                      \<lparr>asks := removeAt i (asks ob)\<rparr>, Some (price (asks ob ! i))))"
  by (simp add: cancelAsk_def Let_def split: option.splits)

lemma cancel_fields [simp]:
  "stpMode (fst (cancelBid x ob)) = stpMode ob" "stpMode (fst (cancelAsk x ob)) = stpMode ob"
  "lastTradeId (fst (cancelBid x ob)) = lastTradeId ob" "lastTradeId (fst (cancelAsk x ob)) = lastTradeId ob"
  "baseAsset (fst (cancelBid x ob)) = baseAsset ob" "baseAsset (fst (cancelAsk x ob)) = baseAsset ob"
  "asks (fst (cancelBid x ob)) = asks ob" "bids (fst (cancelAsk x ob)) = bids ob"
  "asksDepth (fst (cancelBid x ob)) = asksDepth ob" "bidsDepth (fst (cancelAsk x ob)) = bidsDepth ob"
  by (simp_all add: cancelBid_unfold cancelAsk_unfold updateDepth_depth split: option.splits)

lemma cancelConflict_fields [simp]:
  "stpMode (cancelConflict c ob) = stpMode ob"
  "lastTradeId (cancelConflict c ob) = lastTradeId ob"
  "baseAsset (cancelConflict c ob) = baseAsset ob"
  by (simp_all add: cancelConflict_def)

lemma fold_cancelConflict_fields [simp]:
  "stpMode (fold cancelConflict cs ob) = stpMode ob"
  "lastTradeId (fold cancelConflict cs ob) = lastTradeId ob"
  "baseAsset (fold cancelConflict cs ob) = baseAsset ob"
  by (induction cs arbitrary: ob) simp_all

lemma set_bids_cancelBid: "set (bids (fst (cancelBid x ob))) \<subseteq> set (bids ob)"
  by (auto simp: cancelBid_unfold split: option.splits dest: set_mp[OF set_removeAt_subset])

lemma set_asks_cancelAsk: "set (asks (fst (cancelAsk x ob))) \<subseteq> set (asks ob)"
  by (auto simp: cancelAsk_unfold split: option.splits dest: set_mp[OF set_removeAt_subset])

lemma set_cancelConflict:
  "set (bids (cancelConflict c ob)) \<subseteq> set (bids ob)" "set (asks (cancelConflict c ob)) \<subseteq> set (asks ob)"
  using set_bids_cancelBid set_asks_cancelAsk by (auto simp: cancelConflict_def)

lemma set_fold_cancelConflict:
  "set (bids (fold cancelConflict cs ob)) \<subseteq> set (bids ob)
   \<and> set (asks (fold cancelConflict cs ob)) \<subseteq> set (asks ob)"
proof (induction cs arbitrary: ob)
  case Nil then show ?case by simp
next
  case (Cons c cs)
  show ?case using Cons.IH[of "cancelConflict c ob"] set_cancelConflict[of c ob] by auto
qed

subsection \<open>The shape of addOrder\<close>

lemma addOrder_unfold:
  "addOrder ord ob =
     (let cs = conflictingOrders ord (oppositeBook (side ord) ob) in
      if cs \<noteq> [] \<and> stpMode ob = CANCEL_NEWEST then (ob, rejectedNewest)
      else if cs \<noteq> [] \<and> stpMode ob = CANCEL_BOTH then
        (fold cancelConflict cs ob,
         \<lparr>status = REJECTED, executedQty = 0, fills = [],
          rejectionReason = Some ''STP: Cancel Both'', cancelledOrders = Some (map orderId cs)\<rparr>)
      else finishOrder ord (matchOrder ord (side ord) (fold cancelConflict cs ob)))"
  by (cases "conflictingOrders ord (oppositeBook (side ord) ob) = []")
     (auto simp: addOrder_def wouldSelfTrade_def Let_def finishOrder_def rejectedNewest_def
           split: prod.splits)

lemma fills_finishOrder [simp]: "fills (snd (finishOrder ord r)) = fst (snd r)"
  by (simp add: finishOrder_def split: prod.splits)

lemma executedQty_finishOrder [simp]: "executedQty (snd (finishOrder ord r)) = snd (snd r)"
  by (simp add: finishOrder_def split: prod.splits)

lemma status_finishOrder [simp]: "status (snd (finishOrder ord r)) \<noteq> REJECTED"
  by (simp add: finishOrder_def split: prod.splits)

subsection \<open>Fills come from crossing makers of other users\<close>

lemma okey_filled [simp]: "okey (x\<lparr>filled := v\<rparr>) = okey x"
  by (simp add: okey_def)

lemma okey_image_update:
  "i < length xs \<Longrightarrow> okey y = okey (xs ! i) \<Longrightarrow> okey ` set (xs[i := y]) \<subseteq> okey ` set xs"
proof
  fix k assume a: "i < length xs" "okey y = okey (xs ! i)" "k \<in> okey ` set (xs[i := y])"
  then obtain z where z: "z \<in> set (xs[i := y])" "k = okey z" by auto
  then have "z = y \<or> z \<in> set xs" using set_update_subset_insert[of xs i y] by auto
  then show "k \<in> okey ` set xs"
  proof
    assume "z = y"
    then have "k = okey (xs ! i)" using z a by simp
    moreover have "xs ! i \<in> set xs" using a(1) by simp
    ultimately show ?thesis by blast
  next
    assume "z \<in> set xs" then show ?thesis using z by auto
  qed
qed

lemma pricesCross_okey: "okey a = okey b \<Longrightarrow> pricesCross sd a inc = pricesCross sd b inc"
  by (simp add: okey_def pricesCross_def)

lemma matchLoop_fillOf:
  assumes "okey ` set (oppositeBook sd ob) \<subseteq> okey ` set book0"
    and "\<forall>f\<in>set fs. fillOf sd incoming book0 f"
  shows "okey ` set (oppositeBook sd (fst (matchLoop incoming sd i fs e q ob))) \<subseteq> okey ` set book0
       \<and> (\<forall>f\<in>set (fst (snd (matchLoop incoming sd i fs e q ob))). fillOf sd incoming book0 f)"
proof -
  let ?P = "\<lambda>(i::nat) fs (e::decimal) (q::decimal) ob.
      okey ` set (oppositeBook sd ob) \<subseteq> okey ` set book0 \<and> (\<forall>f\<in>set fs. fillOf sd incoming book0 f)"
  have "\<exists>i' q'. ?P i' (fst (snd (matchLoop incoming sd i fs e q ob)))
                    (snd (snd (matchLoop incoming sd i fs e q ob))) q'
                    (fst (matchLoop incoming sd i fs e q ob))
          \<and> \<not> (i' < length (oppositeBook sd (fst (matchLoop incoming sd i fs e q ob))) \<and> q' > 0
               \<and> pricesCross sd (oppositeBook sd (fst (matchLoop incoming sd i fs e q ob)) ! i') incoming)"
  proof (rule matchLoop_rule[where P = ?P])
    show "?P i fs e q ob" using assms by simp
  next
    fix i fs e q ob
    assume "?P i fs e q ob"
    then show "?P (i + 1) fs e q ob" by simp
  next
    fix i fs e q ob mk fq ob'
    assume P: "?P i fs e q ob" and i: "i < length (oppositeBook sd ob)"
      and mk: "mk = oppositeBook sd ob ! i" and cr: "pricesCross sd mk incoming"
      and ne: "userId mk \<noteq> userId incoming" and ob': "ob' = executeTrade sd i fq ob"
    have "mk \<in> set (oppositeBook sd ob)" using i mk by simp
    then have "okey mk \<in> okey ` set book0" using P by blast
    then obtain m0 where m0: "m0 \<in> set book0" "okey m0 = okey mk" by auto
    have f: "fillOf sd incoming book0 (mkFill mk fq (lastTradeId ob))"
      unfolding fillOf_def
      using m0 cr ne pricesCross_okey[OF m0(2), of sd incoming]
      by (intro bexI[of _ m0]) (auto simp: mkFill_def okey_def)
    have b1: "okey ` set (oppositeBook sd ob') \<subseteq> okey ` set book0"
      using okey_image_update[OF i, of "mk\<lparr>filled := filled mk + fq\<rparr>"] P mk ob' by auto
    have b2: "okey ` set (removeAt i (oppositeBook sd ob')) \<subseteq> okey ` set book0"
      using b1 set_removeAt_subset[of i "oppositeBook sd ob'"] by blast
    show "if filled mk + fq = quantity mk
          then ?P i (fs @ [mkFill mk fq (lastTradeId ob)]) (e + fq) (q - fq)
                 (setOppositeBook sd (removeAt i (oppositeBook sd ob')) ob')
          else ?P (i + 1) (fs @ [mkFill mk fq (lastTradeId ob)]) (e + fq) (q - fq) ob'"
      using P f b1 b2 by auto
  qed
  then show ?thesis by auto
qed

lemma matchOrder_fillOf:
  "\<forall>f\<in>set (fst (snd (matchOrder incoming sd ob))). fillOf sd incoming (oppositeBook sd ob) f"
  unfolding matchOrder_def using matchLoop_fillOf[of sd ob "oppositeBook sd ob" "[]" incoming 0 0] by simp

subsection \<open>Fills follow the order of the opposite side\<close>

lemma priceOrder_filled [simp]:
  "priceOrder s (x\<lparr>filled := v\<rparr>) y = priceOrder s x y"
  "priceOrder s y (x\<lparr>filled := v\<rparr>) = priceOrder s y x"
  by (simp_all add: priceOrder_def)

lemma sorted_wrt_update_filled:
  assumes "sorted_wrt (priceOrder s) xs"
  shows "sorted_wrt (priceOrder s) (xs[i := (xs ! i)\<lparr>filled := v\<rparr>])"
proof -
  have "priceOrder s ((xs[i := (xs ! i)\<lparr>filled := v\<rparr>]) ! a) ((xs[i := (xs ! i)\<lparr>filled := v\<rparr>]) ! b)"
    if "a < b" "b < length xs" for a b
  proof -
    have "priceOrder s (xs ! a) (xs ! b)" using that assms by (simp add: sorted_wrt_iff_nth_less)
    then show ?thesis
      by (cases "i < length xs") (auto simp: nth_list_update not_less list_update_beyond)
  qed
  then show ?thesis by (simp add: sorted_wrt_iff_nth_less)
qed

lemma matchLoop_sorted_fills:
  assumes "sorted_wrt (priceOrder (otherSide sd)) (oppositeBook sd ob)"
    and "sorted_wrt (fillOrder sd) fs"
    and "\<forall>f\<in>set fs. \<forall>k. i \<le> k \<and> k < length (oppositeBook sd ob) \<longrightarrow> fillBefore sd f (oppositeBook sd ob ! k)"
  shows "sorted_wrt (priceOrder (otherSide sd)) (oppositeBook sd (fst (matchLoop incoming sd i fs e q ob)))
       \<and> sorted_wrt (fillOrder sd) (fst (snd (matchLoop incoming sd i fs e q ob)))"
proof -
  let ?R = "priceOrder (otherSide sd)"
  let ?P = "\<lambda>(i::nat) fs (e::decimal) (q::decimal) ob.
      sorted_wrt ?R (oppositeBook sd ob) \<and> sorted_wrt (fillOrder sd) fs
      \<and> (\<forall>f\<in>set fs. \<forall>k. i \<le> k \<and> k < length (oppositeBook sd ob) \<longrightarrow> fillBefore sd f (oppositeBook sd ob ! k))"
  have "\<exists>i' q'. ?P i' (fst (snd (matchLoop incoming sd i fs e q ob)))
                    (snd (snd (matchLoop incoming sd i fs e q ob))) q'
                    (fst (matchLoop incoming sd i fs e q ob))
          \<and> \<not> (i' < length (oppositeBook sd (fst (matchLoop incoming sd i fs e q ob))) \<and> q' > 0
               \<and> pricesCross sd (oppositeBook sd (fst (matchLoop incoming sd i fs e q ob)) ! i') incoming)"
  proof (rule matchLoop_rule[where P = ?P])
    show "?P i fs e q ob" using assms by simp
  next
    fix i fs e q ob
    assume "?P i fs e q ob"
    then show "?P (i + 1) fs e q ob" by simp
  next
    fix i fs e q ob mk fq ob'
    assume P: "?P i fs e q ob" and i: "i < length (oppositeBook sd ob)"
      and mk: "mk = oppositeBook sd ob ! i" and ob': "ob' = executeTrade sd i fq ob"
    let ?bk = "oppositeBook sd ob"
    let ?f = "mkFill mk fq (lastTradeId ob)"
    have bk': "oppositeBook sd ob' = ?bk[i := mk\<lparr>filled := filled mk + fq\<rparr>]"
      using ob' mk by simp
    have s1: "sorted_wrt ?R (oppositeBook sd ob')"
      unfolding bk' mk using P by (intro sorted_wrt_update_filled) simp
    have s2: "sorted_wrt ?R (removeAt i (oppositeBook sd ob'))"
      using s1 by (rule sorted_wrt_removeAt)
    have old: "\<forall>f\<in>set fs. fillBefore sd f mk" using P i mk by auto
    have s3: "sorted_wrt (fillOrder sd) (fs @ [?f])"
      using P old by (auto simp: sorted_wrt_append fillOrder_def fillBefore_def mkFill_def)
    have later: "?R mk (?bk ! k)" if "i < k" "k < length ?bk" for k
      using P that mk by (auto simp: sorted_wrt_iff_nth_less)
    have fb: "fillBefore sd ?f (?bk ! k)" if "i < k" "k < length ?bk" for k
      using later[OF that] by (cases sd) (auto simp: fillBefore_def priceOrder_def otherSide_def mkFill_def)
    have keep: "\<forall>f\<in>set (fs @ [?f]). \<forall>k. i + 1 \<le> k \<and> k < length (oppositeBook sd ob')
                  \<longrightarrow> fillBefore sd f (oppositeBook sd ob' ! k)"
      using P fb by (auto simp: bk')
    have rem: "\<forall>f\<in>set (fs @ [?f]). \<forall>k. i \<le> k \<and> k < length (removeAt i (oppositeBook sd ob'))
                  \<longrightarrow> fillBefore sd f (removeAt i (oppositeBook sd ob') ! k)"
    proof (intro ballI allI impI)
      fix f k assume f: "f \<in> set (fs @ [?f])" and k: "i \<le> k \<and> k < length (removeAt i (oppositeBook sd ob'))"
      have len: "length (removeAt i (oppositeBook sd ob')) = length ?bk - 1" using i by (simp add: bk')
      with k have k': "i < Suc k" "Suc k < length ?bk" by auto
      have "removeAt i (oppositeBook sd ob') ! k = ?bk ! Suc k"
        using k len i by (simp add: nth_removeAt bk')
      moreover have "fillBefore sd f (?bk ! Suc k)"
        using f P fb[OF k'] k' by auto
      ultimately show "fillBefore sd f (removeAt i (oppositeBook sd ob') ! k)" by simp
    qed
    show "if filled mk + fq = quantity mk
          then ?P i (fs @ [?f]) (e + fq) (q - fq)
                 (setOppositeBook sd (removeAt i (oppositeBook sd ob')) ob')
          else ?P (i + 1) (fs @ [?f]) (e + fq) (q - fq) ob'"
      using s1 s2 s3 keep rem by simp
  qed
  then show ?thesis by auto
qed

lemma matchOrder_sorted_fills:
  assumes "sorted_wrt (priceOrder (otherSide sd)) (oppositeBook sd ob)"
  shows "sorted_wrt (fillOrder sd) (fst (snd (matchOrder incoming sd ob)))"
  unfolding matchOrder_def using matchLoop_sorted_fills[OF assms, of "[]" 0 incoming 0 "quantity incoming"] by simp

lemma sorted_cancel:
  "sorted_wrt R (bids ob) \<Longrightarrow> sorted_wrt R (bids (fst (cancelBid x ob)))"
  "sorted_wrt R' (asks ob) \<Longrightarrow> sorted_wrt R' (asks (fst (cancelAsk x ob)))"
  by (auto simp: cancelBid_unfold cancelAsk_unfold sorted_wrt_removeAt split: option.splits)

lemma sorted_cancelConflict:
  "sorted_wrt R (bids ob) \<Longrightarrow> sorted_wrt R (bids (cancelConflict c ob))"
  "sorted_wrt R' (asks ob) \<Longrightarrow> sorted_wrt R' (asks (cancelConflict c ob))"
  by (auto simp: cancelConflict_def sorted_cancel)

lemma sorted_fold_cancelConflict:
  "sorted_wrt R (bids ob) \<Longrightarrow> sorted_wrt R (bids (fold cancelConflict cs ob))"
  "sorted_wrt R' (asks ob) \<Longrightarrow> sorted_wrt R' (asks (fold cancelConflict cs ob))"
  by (induction cs arbitrary: ob) (simp_all add: sorted_cancelConflict)

lemma fillOf_mono: "set b \<subseteq> set b' \<Longrightarrow> fillOf sd inc b f \<Longrightarrow> fillOf sd inc b' f"
  by (auto simp: fillOf_def)

lemma addOrder_fillOf:
  "\<forall>f\<in>set (fills (snd (addOrder ord ob))). fillOf (side ord) ord (oppositeBook (side ord) ob) f"
proof -
  let ?cs = "conflictingOrders ord (oppositeBook (side ord) ob)"
  let ?ob1 = "fold cancelConflict ?cs ob"
  have sub: "set (oppositeBook (side ord) ?ob1) \<subseteq> set (oppositeBook (side ord) ob)"
    using set_fold_cancelConflict[of ?cs ob] by (cases "side ord") (simp_all add: oppositeBook_def)
  show ?thesis
    using matchOrder_fillOf[of ord "side ord" ?ob1] fillOf_mono[OF sub]
    by (auto simp: addOrder_unfold Let_def rejectedNewest_def)
qed

text \<open>
  Claim C5 (maker-price rule). Every fill returned by \<^verbatim>\<open>addOrder\<close> carries the price,
  the order id and the user id of an order that rested on the opposite side when the
  call started, and that resting order crosses the incoming one: the fill price is the
  maker's price whatever the limit of the taker is. When the asks are in ascending price
  order, the fills of a buy come in non-decreasing price order.
\<close>

theorem maker_price_rule:
  "(\<forall>f\<in>set (fills (snd (addOrder ord ob))).
      \<exists>mk\<in>set (oppositeBook (side ord) ob).
        fprice f = price mk \<and> markerOrderId f = orderId mk \<and> otherUserId f = userId mk
        \<and> pricesCross (side ord) mk ord)
   \<and> (side ord = Buy \<and> sorted_wrt (\<lambda>x y. price x \<le> price y) (asks ob)
        \<longrightarrow> sorted (map fprice (fills (snd (addOrder ord ob)))))"
proof (intro conjI impI)
  show "\<forall>f\<in>set (fills (snd (addOrder ord ob))).
      \<exists>mk\<in>set (oppositeBook (side ord) ob).
        fprice f = price mk \<and> markerOrderId f = orderId mk \<and> otherUserId f = userId mk
        \<and> pricesCross (side ord) mk ord"
    using addOrder_fillOf[of ord ob] unfolding fillOf_def by blast
next
  assume a: "side ord = Buy \<and> sorted_wrt (\<lambda>x y. price x \<le> price y) (asks ob)"
  let ?cs = "conflictingOrders ord (oppositeBook (side ord) ob)"
  let ?ob1 = "fold cancelConflict ?cs ob"
  have R: "priceOrder (otherSide Buy) = (\<lambda>x y. price x \<le> price y)"
    by (simp add: priceOrder_def otherSide_def fun_eq_iff)
  have "sorted_wrt (priceOrder (otherSide Buy)) (oppositeBook Buy ?ob1)"
    unfolding R using a sorted_fold_cancelConflict(2)[of _ ob ?cs] by (simp add: oppositeBook_def)
  then have "sorted_wrt (fillOrder Buy) (fst (snd (matchOrder ord Buy ?ob1)))"
    by (rule matchOrder_sorted_fills)
  moreover have "fillOrder Buy = (\<lambda>f g. fprice f \<le> fprice g)"
    by (simp add: fillOrder_def fun_eq_iff)
  ultimately have "sorted (map fprice (fst (snd (matchOrder ord Buy ?ob1))))"
    by (simp add: sorted_map)
  then show "sorted (map fprice (fills (snd (addOrder ord ob))))"
    using a by (auto simp: addOrder_unfold Let_def rejectedNewest_def)
qed

lemmas book_eval_defs =
  newOrderbook_def rebuildDepthCache_def sortOrders_def addOrder_def wouldSelfTrade_def
  oppositeBook_def setOppositeBook_def matchOrder_def matchLoop.simps pricesCross_def executeTrade_def
  mkFill_def updateDepth_def getOr0_def removeAt_def restOrder_def findInsertIndex_def
  findInsertLoop.simps insertAt_def cancelConflict_def cancelBid_def cancelAsk_def

theorem maker_price_rule_witness:
  "side sweepOrder = Buy \<and> sorted_wrt (\<lambda>x y. price x \<le> price y) (asks sweepBook)
   \<and> map fprice (fills (snd (addOrder sweepOrder sweepBook))) = [100, 101]
   \<and> sorted (map fprice (fills (snd (addOrder sweepOrder sweepBook))))"
proof -
  have h: "side sweepOrder = Buy \<and> sorted_wrt (\<lambda>x y. price x \<le> price y) (asks sweepBook)"
    by (simp add: sweepOrder_def sweepBook_def book_eval_defs)
  have v: "map fprice (fills (snd (addOrder sweepOrder sweepBook))) = [100, 101]"
    by (simp add: sweepOrder_def sweepBook_def book_eval_defs Let_def)
  from maker_price_rule[of sweepOrder sweepBook] h
  have "sorted (map fprice (fills (snd (addOrder sweepOrder sweepBook))))" by blast
  with h v show ?thesis by blast
qed

subsection \<open>The conflicts found by the STP check\<close>

lemma cross_earlier:
  "priceOrder (otherSide sd) r y \<Longrightarrow> pricesCross sd y inc \<Longrightarrow> pricesCross sd r inc"
  by (cases sd) (auto simp: priceOrder_def otherSide_def pricesCross_def)

lemma set_conflictingOrders_subset:
  "set (conflictingOrders ord book) \<subseteq> {x \<in> set book. pricesCross (side ord) x ord \<and> userId x = userId ord}"
  by (induction book) auto

lemma set_conflictingOrders:
  assumes "sorted_wrt (priceOrder (otherSide (side ord))) book"
  shows "set (conflictingOrders ord book)
       = {x \<in> set book. pricesCross (side ord) x ord \<and> userId x = userId ord}"
  using assms
proof (induction book)
  case Nil then show ?case by simp
next
  case (Cons r rest)
  show ?case
  proof (cases "pricesCross (side ord) r ord")
    case True
    with Cons show ?thesis by auto
  next
    case False
    have "\<not> pricesCross (side ord) y ord" if "y \<in> set rest" for y
      using Cons.prems that False cross_earlier[of "side ord" r y ord] by auto
    with False show ?thesis by auto
  qed
qed

subsection \<open>Cancelling by id in a side with distinct ids\<close>








lemma noOwnCross_no_conflicts:
  assumes "sorted_wrt (priceOrder (otherSide (side ord))) book" "conflictingOrders ord book = []"
  shows "noOwnCross (side ord) ord book"
  using set_conflictingOrders[OF assms(1)] assms(2) by (auto simp: noOwnCross_def)













lemma restOrder_books:
  "ownBook (side ord) (restOrder ord ob)
     = insertAt (findInsertIndex (ownBook (side ord) ob) (price ord) (side ord)) ord (ownBook (side ord) ob)"
  "oppositeBook (side ord) (restOrder ord ob) = oppositeBook (side ord) ob"
  by (cases "side ord"; simp add: restOrder_def Let_def ownBook_def oppositeBook_def)+








subsection \<open>Self-trade rejection\<close>


lemma balance_eta [simp]: "\<lparr>available = available b, locked = locked b\<rparr> = (b::balance)"
  by (cases b) simp

lemma lock_unlock:
  assumes "checkAndLockFunds base quote sd uid p q bal = Inr bal1"
  shows "unlockFunds base quote sd uid p q bal1 = (bal, None)"
proof -
  let ?asset = "if sd = Buy then quote else base"
  let ?req = "if sd = Buy then q * p else q"
  from assms obtain ub b where ub: "bal uid = Some ub" and b: "ub ?asset = Some b"
    and bal1: "bal1 = bal(uid \<mapsto> ub(?asset \<mapsto> \<lparr>available = available b - ?req, locked = locked b + ?req\<rparr>))"
    by (auto simp: checkAndLockFunds_def Let_def split: option.splits if_splits)
  have "ub(?asset \<mapsto> b) = ub" using b by (simp add: map_upd_triv)
  then have same: "bal(uid \<mapsto> ub(?asset \<mapsto> b)) = bal" using ub by (simp add: map_upd_triv)
  show ?thesis
    using same
    by (cases sd) (simp_all add: unlockFunds_def whenUser_def andThen_def subtractLocked_def addAvailable_def bal1)
qed


lemma engine_same [simp]: "e\<lparr>orderbooks := orderbooks e, balances := balances e\<rparr> = (e::engine)"
  by (cases e) simp





lemma sum_list_update_rat:
  fixes f :: "'a \<Rightarrow> rat"
  shows "i < length xs \<Longrightarrow> sum_list (map f (xs[i := y])) = sum_list (map f xs) - f (xs ! i) + f y"
proof (induction xs arbitrary: i)
  case Nil then show ?case by simp
next
  case (Cons x xs) then show ?case by (cases i) auto
qed

lemma sum_list_insertAt_rat:
  fixes f :: "'a \<Rightarrow> rat"
  shows "sum_list (map f (insertAt i y xs)) = sum_list (map f xs) + f y"
proof -
  have "sum_list (map f (take i xs)) + sum_list (map f (drop i xs)) = sum_list (map f xs)"
    by (metis append_take_drop_id map_append sum_list_append)
  then show ?thesis by (simp add: insertAt_def)
qed






lemma restingOpen_generic:
  "restingOpen ob \<longleftrightarrow> (\<forall>x\<in>set (ownBook sd ob). filled x < quantity x) \<and> (\<forall>x\<in>set (oppositeBook sd ob). filled x < quantity x)"
  by (cases sd) (auto simp: restingOpen_def side_acc_defs)













subsection \<open>The two ledger statements\<close>

lemma addAvailable_cases:
  "(hasEntry bal u a \<and> addAvailable u a v bal
        = (bal(u \<mapsto> (the (bal u))(a \<mapsto> (the (the (bal u) a))\<lparr>available := available (the (the (bal u) a)) + v\<rparr>)), None))
   \<or> (\<not> hasEntry bal u a \<and> addAvailable u a v bal = (bal, Some TypeError))"
  by (auto simp: addAvailable_def hasEntry_def split: option.splits)

lemma subtractLocked_cases:
  "(hasEntry bal u a \<and> subtractLocked u a v bal
        = (bal(u \<mapsto> (the (bal u))(a \<mapsto> (the (the (bal u) a))\<lparr>locked := locked (the (the (bal u) a)) - v\<rparr>)), None))
   \<or> (\<not> hasEntry bal u a \<and> subtractLocked u a v bal = (bal, Some TypeError))"
  by (auto simp: subtractLocked_def hasEntry_def split: option.splits)

lemma sameShape_refl [simp]: "sameShape bal bal"
  by (simp add: sameShape_def)

lemma sameShape_trans: "sameShape a b \<Longrightarrow> sameShape b c \<Longrightarrow> sameShape a c"
  by (simp add: sameShape_def)

lemma sameShape_dom: "sameShape bal bal' \<Longrightarrow> dom bal' = dom bal"
  by (auto simp: sameShape_def dom_def)

lemma sameShape_hasAssets: "sameShape bal bal' \<Longrightarrow> hasAssets bal base quote \<Longrightarrow> hasAssets bal' base quote"
proof -
  assume s: "sameShape bal bal'" and h: "hasAssets bal base quote"
  have "ub base \<noteq> None \<and> ub quote \<noteq> None" if "bal' u = Some ub" for u ub
  proof -
    from that s have "bal u \<noteq> None" unfolding sameShape_def by (metis option.distinct(1))
    then obtain ub0 where u0: "bal u = Some ub0" by blast
    with h have "hasEntry bal u base" "hasEntry bal u quote" by (auto simp: hasAssets_def hasEntry_def)
    with s have "hasEntry bal' u base" "hasEntry bal' u quote" by (auto simp: sameShape_def)
    with that show ?thesis by (auto simp: hasEntry_def)
  qed
  then show ?thesis by (auto simp: hasAssets_def)
qed


lemma put_shape:
  assumes "hasEntry bal u a"
  shows "sameShape bal (bal(u \<mapsto> (the (bal u))(a \<mapsto> b)))"
  using assms by (auto simp: sameShape_def hasEntry_def)

lemma put_availOf:
  assumes "hasEntry bal u a"
  shows "availOf (bal(u \<mapsto> (the (bal u))(a \<mapsto> b))) u' a'
       = (if u' = u \<and> a' = a then available b else availOf bal u' a')"
  using assms by (auto simp: availOf_def hasEntry_def)

lemma put_lockedOf:
  assumes "hasEntry bal u a"
  shows "lockedOf (bal(u \<mapsto> (the (bal u))(a \<mapsto> b))) u' a'
       = (if u' = u \<and> a' = a then locked b else lockedOf bal u' a')"
  using assms by (auto simp: lockedOf_def hasEntry_def)

lemma hasEntry_availOf: "hasEntry bal u a \<Longrightarrow> available (the (the (bal u) a)) = availOf bal u a"
  and hasEntry_lockedOf: "hasEntry bal u a \<Longrightarrow> locked (the (the (bal u) a)) = lockedOf bal u a"
  by (auto simp: hasEntry_def availOf_def lockedOf_def)

lemma addAvailable_ok:
  assumes "hasEntry bal u a"
  shows "snd (addAvailable u a v bal) = None"
    and "sameShape bal (fst (addAvailable u a v bal))"
    and "availOf (fst (addAvailable u a v bal)) u' a' = availOf bal u' a' + (if u' = u \<and> a' = a then v else 0)"
    and "lockedOf (fst (addAvailable u a v bal)) u' a' = lockedOf bal u' a'"
  using addAvailable_cases[of bal u a v] assms
  by (auto simp: put_shape put_availOf put_lockedOf hasEntry_availOf hasEntry_lockedOf)

lemma subtractLocked_ok:
  assumes "hasEntry bal u a"
  shows "snd (subtractLocked u a v bal) = None"
    and "sameShape bal (fst (subtractLocked u a v bal))"
    and "availOf (fst (subtractLocked u a v bal)) u' a' = availOf bal u' a'"
    and "lockedOf (fst (subtractLocked u a v bal)) u' a' = lockedOf bal u' a' - (if u' = u \<and> a' = a then v else 0)"
  using subtractLocked_cases[of bal u a v] assms
  by (auto simp: put_shape put_availOf put_lockedOf hasEntry_availOf hasEntry_lockedOf)

lemma statement_fail:
  "\<not> hasEntry bal u a \<Longrightarrow> addAvailable u a v bal = (bal, Some TypeError)"
  "\<not> hasEntry bal u a \<Longrightarrow> subtractLocked u a v bal = (bal, Some TypeError)"
  using addAvailable_cases[of bal u a v] subtractLocked_cases[of bal u a v] by auto

lemma statement_shape [simp]:
  "hasEntry (fst (addAvailable u a v bal)) u' a' = hasEntry bal u' a'"
  "hasEntry (fst (subtractLocked u a v bal)) u' a' = hasEntry bal u' a'"
  "(fst (addAvailable u a v bal) u' = None) = (bal u' = None)"
  "(fst (subtractLocked u a v bal) u' = None) = (bal u' = None)"
  using addAvailable_cases[of bal u a v] subtractLocked_cases[of bal u a v]
    put_shape[of bal u a]
  by (auto simp: sameShape_def)

lemma statement_snd [simp]:
  "(snd (addAvailable u a v bal) = None) = hasEntry bal u a"
  "(snd (subtractLocked u a v bal) = None) = hasEntry bal u a"
  using addAvailable_cases[of bal u a v] subtractLocked_cases[of bal u a v] by auto

lemma statement_availOf [simp]:
  "availOf (fst (addAvailable u a v bal)) u' a'
     = availOf bal u' a' + (if hasEntry bal u a \<and> u' = u \<and> a' = a then v else 0)"
  "availOf (fst (subtractLocked u a v bal)) u' a' = availOf bal u' a'"
  using addAvailable_ok(3)[of bal u a v u' a'] subtractLocked_ok(3)[of bal u a v u' a']
    statement_fail[of bal u a v]
  by (cases "hasEntry bal u a"; simp)+

lemma statement_lockedOf [simp]:
  "lockedOf (fst (addAvailable u a v bal)) u' a' = lockedOf bal u' a'"
  "lockedOf (fst (subtractLocked u a v bal)) u' a'
     = lockedOf bal u' a' - (if hasEntry bal u a \<and> u' = u \<and> a' = a then v else 0)"
  using addAvailable_ok(4)[of bal u a v u' a'] subtractLocked_ok(4)[of bal u a v u' a']
    statement_fail[of bal u a v]
  by (cases "hasEntry bal u a"; simp)+

lemma andThen_fst: "fst (andThen f g bal) = (if snd (f bal) = None then fst (g (fst (f bal))) else fst (f bal))"
  and andThen_snd: "snd (andThen f g bal) = (if snd (f bal) = None then snd (g (fst (f bal))) else snd (f bal))"
  by (auto simp: andThen_def split: prod.splits option.splits)

lemma whenUser_fst: "fst (whenUser u f bal) = (if bal u = None then bal else fst (f bal))"
  and whenUser_snd: "snd (whenUser u f bal) = (if bal u = None then None else snd (f bal))"
  by (simp_all add: whenUser_def)

lemmas ledger_run = andThen_fst andThen_snd whenUser_fst whenUser_snd


lemma andThen_ok: "snd (f bal) = None \<Longrightarrow> andThen f g bal = g (fst (f bal))"
  by (cases "f bal") (auto simp: andThen_def)

lemma andThen_fail: "snd (f bal) \<noteq> None \<Longrightarrow> andThen f g bal = f bal"
  by (cases "f bal") (auto simp: andThen_def)

lemma whenUser_present:
  "bal u \<noteq> None \<Longrightarrow> whenUser u f bal = f bal"
  by (auto simp: whenUser_def)

lemma whenUser_absent:
  "bal u = None \<Longrightarrow> whenUser u f bal = (bal, None)"
  by (auto simp: whenUser_def)

lemma keepsShape_statement [simp]:
  "keepsShape (addAvailable u a v)" "keepsShape (subtractLocked u a v)"
  by (simp_all add: keepsShape_def sameShape_def)

lemma keepsShape_andThen [simp]: "keepsShape f \<Longrightarrow> keepsShape g \<Longrightarrow> keepsShape (andThen f g)"
proof -
  assume f: "keepsShape f" and g: "keepsShape g"
  have "sameShape bal (fst (andThen f g bal))" for bal
  proof (cases "snd (f bal) = None")
    case True
    then show ?thesis
      using f g sameShape_trans[of bal "fst (f bal)" "fst (g (fst (f bal)))"]
      by (simp add: andThen_ok[where f = f and bal = bal] keepsShape_def)
  next
    case False
    then show ?thesis using f by (simp add: andThen_fail[where f = f and bal = bal] keepsShape_def)
  qed
  then show ?thesis by (simp add: keepsShape_def)
qed

lemma keepsShape_whenUser [simp]: "keepsShape f \<Longrightarrow> keepsShape (whenUser u f)"
  by (simp add: keepsShape_def whenUser_def)

lemma keepsShape_settleFill [simp]: "keepsShape (settleFill uid base quote sd f)"
  by (simp add: settleFill_def Let_def)

lemma keepsShape_updateBalance [simp]: "keepsShape (updateBalance uid base quote sd fs)"
proof (induction fs)
  case Nil
  show ?case by (simp add: keepsShape_def)
next
  case (Cons f fs)
  have "updateBalance uid base quote sd (f # fs)
      = andThen (settleFill uid base quote sd f) (updateBalance uid base quote sd fs)"
    by (simp add: fun_eq_iff)
  then show ?case using Cons by simp
qed

lemma keepsShapeD:
  assumes "keepsShape f"
  shows "hasEntry (fst (f bal)) u a = hasEntry bal u a"
    and "(fst (f bal) u = None) = (bal u = None)"
    and "dom (fst (f bal)) = dom bal"
    and "hasAssets bal base quote \<Longrightarrow> hasAssets (fst (f bal)) base quote"
  using assms sameShape_dom[of bal "fst (f bal)"] sameShape_hasAssets[of bal "fst (f bal)" base quote]
  by (simp_all add: keepsShape_def sameShape_def)




lemma andThen_snd_None:
  "(snd (andThen f g bal) = None) = (snd (f bal) = None \<and> snd (g (fst (f bal))) = None)"
proof (cases "snd (f bal)")
  case None then show ?thesis by (simp add: andThen_ok[where f = f and bal = bal])
next
  case (Some e) then show ?thesis by (simp add: andThen_fail[where f = f and bal = bal])
qed








lemma restValue_update:
  "i < length xs \<Longrightarrow>
   restValue w (xs[i := (xs ! i)\<lparr>filled := filled (xs ! i) + fq\<rparr>])
     = restValue w xs - (if userId (xs ! i) = w then fq * price (xs ! i) else 0)"
  unfolding restValue_def by (simp add: sum_list_update_rat) (simp add: algebra_simps)

lemma restValue_removeAt:
  "i < length xs \<Longrightarrow>
   restValue w (removeAt i xs)
     = restValue w xs - (if userId (xs ! i) = w then (quantity (xs ! i) - filled (xs ! i)) * price (xs ! i) else 0)"
  unfolding restValue_def by (simp add: sum_list_removeAt)

lemma restValue_insertAt:
  "restValue w (insertAt i x xs)
     = restValue w xs + (if userId x = w then (quantity x - filled x) * price x else 0)"
  unfolding restValue_def by (simp add: sum_list_insertAt_rat)

lemma fillValue_snoc [simp]:
  "fillValue w (fs @ [f]) = fillValue w fs + (if otherUserId f = w then qty f * fprice f else 0)"
  by (simp add: fillValue_def)

lemma fillValue_Nil [simp]: "fillValue w [] = 0"
  by (simp add: fillValue_def)

lemma matchLoop_account:
  assumes "\<forall>x\<in>set (oppositeBook sd ob). filled x < quantity x"
    and "e = sum_list (map qty fs)" and "e + q = Q" and "0 < Q \<longrightarrow> 0 \<le> q"
    and "\<forall>f\<in>set fs. 0 < qty f"
  shows "snd (snd (matchLoop incoming sd i fs e q ob))
           = sum_list (map qty (fst (snd (matchLoop incoming sd i fs e q ob))))
       \<and> (0 < Q \<longrightarrow> snd (snd (matchLoop incoming sd i fs e q ob)) \<le> Q)
       \<and> (\<forall>f\<in>set (fst (snd (matchLoop incoming sd i fs e q ob))). 0 < qty f)
       \<and> (\<forall>w. restValue w (oppositeBook sd (fst (matchLoop incoming sd i fs e q ob)))
                + fillValue w (fst (snd (matchLoop incoming sd i fs e q ob)))
              = restValue w (oppositeBook sd ob) + fillValue w fs)"
proof -
  let ?res = "matchLoop incoming sd i fs e q ob"
  let ?P = "\<lambda>(i::nat) fs' e' q' ob'.
      (\<forall>x\<in>set (oppositeBook sd ob'). filled x < quantity x)
      \<and> e' = sum_list (map qty fs') \<and> e' + q' = Q \<and> (0 < Q \<longrightarrow> 0 \<le> q')
      \<and> (\<forall>f\<in>set fs'. 0 < qty f)
      \<and> (\<forall>w. restValue w (oppositeBook sd ob') + fillValue w fs'
              = restValue w (oppositeBook sd ob) + fillValue w fs)"
  have "\<exists>i' q'. ?P i' (fst (snd ?res)) (snd (snd ?res)) q' (fst ?res)
          \<and> \<not> (i' < length (oppositeBook sd (fst ?res)) \<and> q' > 0
               \<and> pricesCross sd (oppositeBook sd (fst ?res) ! i') incoming)"
  proof (rule matchLoop_rule[where P = ?P])
    show "?P i fs e q ob" using assms by simp
  next
    fix i fs e q ob'
    assume "?P i fs e q ob'"
    then show "?P (i + 1) fs e q ob'" by simp
  next
    fix i fs' e' q' ob1 mk fq ob'
    assume P: "?P i fs' e' q' ob1" and i: "i < length (oppositeBook sd ob1)" and q: "q' > 0"
      and mk: "mk = oppositeBook sd ob1 ! i" and fq: "fq = min q' (quantity mk - filled mk)"
      and ob': "ob' = executeTrade sd i fq ob1"
    let ?bk = "oppositeBook sd ob1"
    let ?mk' = "mk\<lparr>filled := filled mk + fq\<rparr>"
    let ?f = "mkFill mk fq (lastTradeId ob1)"
    have bk': "oppositeBook sd ob' = ?bk[i := ?mk']" using ob' mk by simp
    have mkin: "mk \<in> set ?bk" using i mk by simp
    then have open_mk: "filled mk < quantity mk" using P by simp
    have fqpos: "0 < fq" "fq \<le> quantity mk - filled mk" "fq \<le> q'" using fq q open_mk by auto
    have f: "qty ?f = fq" "fprice ?f = price mk" "otherUserId ?f = userId mk" by (simp_all add: mkFill_def)
    have acc: "e' + fq = sum_list (map qty (fs' @ [?f]))" "e' + fq + (q' - fq) = Q" "0 < Q \<longrightarrow> 0 \<le> q' - fq"
      "\<forall>g\<in>set (fs' @ [?f]). 0 < qty g"
      using P fqpos f by auto
    have upd: "\<forall>w. restValue w (?bk[i := ?mk']) + fillValue w (fs' @ [?f])
              = restValue w (oppositeBook sd ob) + fillValue w fs"
    proof
      fix w
      have 1: "restValue w (?bk[i := ?mk']) = restValue w ?bk - (if userId mk = w then fq * price mk else 0)"
        unfolding mk by (rule restValue_update[OF i])
      have 2: "fillValue w (fs' @ [?f]) = fillValue w fs' + (if userId mk = w then fq * price mk else 0)"
        by (simp add: f)
      have 3: "restValue w ?bk + fillValue w fs' = restValue w (oppositeBook sd ob) + fillValue w fs"
        using P by blast
      show "restValue w (?bk[i := ?mk']) + fillValue w (fs' @ [?f])
              = restValue w (oppositeBook sd ob) + fillValue w fs"
        unfolding 1 2 using 3 by simp
    qed
    show "if filled mk + fq = quantity mk
          then ?P i (fs' @ [?f]) (e' + fq) (q' - fq)
                 (setOppositeBook sd (removeAt i (oppositeBook sd ob')) ob')
          else ?P (i + 1) (fs' @ [?f]) (e' + fq) (q' - fq) ob'"
    proof (cases "filled mk + fq = quantity mk")
      case True
      let ?fin = "removeAt i (?bk[i := ?mk'])"
      have sub: "set ?fin \<subseteq> set ?bk" by (simp add: removeAt_def) (meson in_set_dropD in_set_takeD subsetI UnE)
      then have op: "\<forall>x\<in>set ?fin. filled x < quantity x" using P by blast
      have i': "i < length (?bk[i := ?mk'])" using i by simp
      have z: "quantity ((?bk[i := ?mk']) ! i) - filled ((?bk[i := ?mk']) ! i) = 0"
        using True i by simp
      have "\<forall>w. restValue w ?fin = restValue w (?bk[i := ?mk'])"
        unfolding restValue_removeAt[OF i'] z by simp
      with upd have rv: "\<forall>w. restValue w ?fin + fillValue w (fs' @ [?f])
              = restValue w (oppositeBook sd ob) + fillValue w fs" by simp
      show ?thesis using True op acc rv by (simp add: bk')
    next
      case False
      have lt: "fq < quantity mk - filled mk" using fqpos False by auto
      have op: "\<forall>x\<in>set (?bk[i := ?mk']). filled x < quantity x"
      proof
        fix x assume "x \<in> set (?bk[i := ?mk'])"
        then have "x = ?mk' \<or> x \<in> set ?bk" using set_update_subset_insert[of ?bk i ?mk'] by auto
        then show "filled x < quantity x" using lt P by auto
      qed
      show ?thesis using False op acc upd by (simp add: bk')
    qed
  qed
  then obtain i' q' where P: "?P i' (fst (snd ?res)) (snd (snd ?res)) q' (fst ?res)" by blast
  then have "0 < Q \<longrightarrow> snd (snd ?res) \<le> Q" by auto
  with P show ?thesis by blast
qed

lemma matchOrder_account:
  assumes "\<forall>x\<in>set (oppositeBook sd ob). filled x < quantity x"
  shows "snd (snd (matchOrder incoming sd ob)) = sum_list (map qty (fst (snd (matchOrder incoming sd ob))))"
    and "0 < quantity incoming \<Longrightarrow> snd (snd (matchOrder incoming sd ob)) \<le> quantity incoming"
    and "\<forall>f\<in>set (fst (snd (matchOrder incoming sd ob))). 0 < qty f"
    and "restValue w (oppositeBook sd (fst (matchOrder incoming sd ob)))
           = restValue w (oppositeBook sd ob) - fillValue w (fst (snd (matchOrder incoming sd ob)))"
  using matchLoop_account[OF assms, of 0 "[]" "quantity incoming" "quantity incoming" incoming 0]
  unfolding matchOrder_def by (auto simp: algebra_simps)

lemma matchOrder_own:
  "ownBook sd (fst (matchOrder incoming sd ob)) = ownBook sd ob"
proof -
  let ?P = "\<lambda>(i::nat) (fs::fill list) (e::decimal) (q::decimal) ob'. ownBook sd ob' = ownBook sd ob"
  let ?res = "matchLoop incoming sd 0 [] 0 (quantity incoming) ob"
  have "\<exists>i' q'. ?P i' (fst (snd ?res)) (snd (snd ?res)) q' (fst ?res)
          \<and> \<not> (i' < length (oppositeBook sd (fst ?res)) \<and> q' > 0
               \<and> pricesCross sd (oppositeBook sd (fst ?res) ! i') incoming)"
    by (rule matchLoop_rule[where P = ?P]) simp_all
  then show ?thesis by (simp add: matchOrder_def)
qed

lemma matchOrder_fields [simp]:
  "stpMode (fst (matchOrder incoming sd ob)) = stpMode ob"
  "baseAsset (fst (matchOrder incoming sd ob)) = baseAsset ob"
proof -
  let ?P = "\<lambda>(i::nat) (fs::fill list) (e::decimal) (q::decimal) ob'. stpMode ob' = stpMode ob \<and> baseAsset ob' = baseAsset ob"
  let ?res = "matchLoop incoming sd 0 [] 0 (quantity incoming) ob"
  have "\<exists>i' q'. ?P i' (fst (snd ?res)) (snd (snd ?res)) q' (fst ?res)
          \<and> \<not> (i' < length (oppositeBook sd (fst ?res)) \<and> q' > 0
               \<and> pricesCross sd (oppositeBook sd (fst ?res) ! i') incoming)"
    by (rule matchLoop_rule[where P = ?P]) simp_all
  then show "stpMode (fst (matchOrder incoming sd ob)) = stpMode ob"
    "baseAsset (fst (matchOrder incoming sd ob)) = baseAsset ob"
    by (simp_all add: matchOrder_def)
qed

subsection \<open>Locking\<close>

lemma checkAndLockFunds_Inr:
  assumes "checkAndLockFunds base quote sd uid p q bal = Inr bal1"
  shows "hasEntry bal uid (lockAsset sd base quote)"
    and "lockAmount sd p q \<le> availOf bal uid (lockAsset sd base quote)"
    and "bal1 = bal(uid \<mapsto> (the (bal uid))(lockAsset sd base quote \<mapsto>
            \<lparr>available = availOf bal uid (lockAsset sd base quote) - lockAmount sd p q,
             locked = lockedOf bal uid (lockAsset sd base quote) + lockAmount sd p q\<rparr>))"
  using assms
  by (auto simp: checkAndLockFunds_def Let_def hasEntry_def availOf_def lockedOf_def lockAsset_def
        lockAmount_def split: option.splits if_splits)

lemma checkAndLockFunds_effect:
  assumes "checkAndLockFunds base quote sd uid p q bal = Inr bal1"
  shows "sameShape bal bal1"
    and "availOf bal1 u a = availOf bal u a - (if u = uid \<and> a = lockAsset sd base quote then lockAmount sd p q else 0)"
    and "lockedOf bal1 u a = lockedOf bal u a + (if u = uid \<and> a = lockAsset sd base quote then lockAmount sd p q else 0)"
  using checkAndLockFunds_Inr[OF assms]
  by (simp_all add: put_shape put_availOf put_lockedOf)



subsection \<open>Settlement of all fills when every user holds both assets\<close>



subsection \<open>Who rests on the book\<close>








lemma restOrder_fields [simp]:
  "stpMode (restOrder x ob) = stpMode ob" "baseAsset (restOrder x ob) = baseAsset ob"
  by (simp_all add: restOrder_def Let_def)

lemma finishOrder_fields [simp]:
  "stpMode (fst (finishOrder ord r)) = stpMode (fst r)"
  "baseAsset (fst (finishOrder ord r)) = baseAsset (fst r)"
  by (simp_all add: finishOrder_def split: prod.splits)

lemma addOrder_fields [simp]:
  "stpMode (fst (addOrder ord ob)) = stpMode ob" "baseAsset (fst (addOrder ord ob)) = baseAsset ob"
  by (simp_all add: addOrder_unfold Let_def)


lemma assetAt_TATA_INR [simp]:
  "assetAt ''TATA_INR'' 0 = ''TATA''" "assetAt ''TATA_INR'' 1 = ''INR''"
  "assetAt ''TATA_INR'' (Suc 0) = ''INR''"
  by (simp_all add: assetAt_def)

lemma findIndex_single_book:
  "baseAsset ob = ''TATA'' \<Longrightarrow>
   findIndex (\<lambda>b. ticker b = market) [ob] = (if market = ''TATA_INR'' then Some 0 else None)"
  by (auto simp: ticker_TATA)

lemma find_single_book:
  "baseAsset ob = ''TATA'' \<Longrightarrow>
   find (\<lambda>b. ticker b = market) [ob] = (if market = ''TATA_INR'' then Some ob else None)"
  by (auto simp: ticker_TATA)

lemma createOrder_other_market:
  assumes "orderbooks e = [ob]" "baseAsset ob = ''TATA''" "market \<noteq> ''TATA_INR''"
  shows "createOrder oid market p q sd uid e = (e, Inl (Error ''No orderbook found''))"
  using assms by (simp add: createOrder_def ticker_TATA Let_def)

lemma newOrder_fields [simp]:
  "price (newOrder oid p q sd uid) = p" "quantity (newOrder oid p q sd uid) = q"
  "orderId (newOrder oid p q sd uid) = oid" "filled (newOrder oid p q sd uid) = 0"
  "side (newOrder oid p q sd uid) = sd" "userId (newOrder oid p q sd uid) = uid"
  by (simp_all add: newOrder_def)

lemma createOrder_lock_fails:
  assumes "orderbooks e = [ob]" "baseAsset ob = ''TATA''"
    and "checkAndLockFunds ''TATA'' ''INR'' sd uid p q (balances e) = Inl err"
  shows "createOrder oid ''TATA_INR'' p q sd uid e = (e, Inl err)"
  using assms by (simp add: createOrder_def ticker_TATA Let_def)

lemma createOrder_rejected:
  assumes "orderbooks e = [ob]" "baseAsset ob = ''TATA''"
    and "checkAndLockFunds ''TATA'' ''INR'' sd uid p q (balances e) = Inr bal1"
    and "status (snd (addOrder (newOrder oid p q sd uid) ob)) = REJECTED"
  shows "\<exists>err. createOrder oid ''TATA_INR'' p q sd uid e
       = (e\<lparr>orderbooks := [fst (addOrder (newOrder oid p q sd uid) ob)]\<rparr>, Inl err)"
proof -
  have un: "unlockFunds ''TATA'' ''INR'' sd uid p q bal1 = (balances e, None)"
    by (rule lock_unlock[OF assms(3)])
  show ?thesis
    using assms un
    by (cases "addOrder (newOrder oid p q sd uid) ob")
       (simp add: createOrder_def ticker_TATA Let_def newOrder_def)
qed

lemma createOrder_settles:
  assumes "orderbooks e = [ob]" "baseAsset ob = ''TATA''"
    and "checkAndLockFunds ''TATA'' ''INR'' sd uid p q (balances e) = Inr bal1"
    and "status (snd (addOrder (newOrder oid p q sd uid) ob)) \<noteq> REJECTED"
  shows "createOrder oid ''TATA_INR'' p q sd uid e
       = (e\<lparr>orderbooks := [fst (addOrder (newOrder oid p q sd uid) ob)],
             balances := fst (updateBalance uid ''TATA'' ''INR'' sd
                                (fills (snd (addOrder (newOrder oid p q sd uid) ob))) bal1)\<rparr>,
          case snd (updateBalance uid ''TATA'' ''INR'' sd
                      (fills (snd (addOrder (newOrder oid p q sd uid) ob))) bal1) of
            Some err \<Rightarrow> Inl err
          | None \<Rightarrow> Inr (executedQty (snd (addOrder (newOrder oid p q sd uid) ob)),
                         fills (snd (addOrder (newOrder oid p q sd uid) ob)), oid))"
  using assms
  by (cases "addOrder (newOrder oid p q sd uid) ob";
      cases "updateBalance uid ''TATA'' ''INR'' sd (fills (snd (addOrder (newOrder oid p q sd uid) ob))) bal1")
     (auto simp: createOrder_def ticker_TATA Let_def newOrder_def split: option.splits)


lemma refund_cases:
  "(hasEntry bal u a \<and> refund bal u a left
        = bal(u \<mapsto> (the (bal u))(a \<mapsto> \<lparr>available = availOf bal u a + left, locked = lockedOf bal u a - left\<rparr>)))
   \<or> (\<not> hasEntry bal u a \<and> refund bal u a left = bal)"
  by (auto simp: refund_def hasEntry_def availOf_def lockedOf_def split: option.splits)

lemma refund_effect:
  "sameShape bal (refund bal u a left)"
  "availOf (refund bal u a left) u' a' = availOf bal u' a' + (if hasEntry bal u a \<and> u' = u \<and> a' = a then left else 0)"
  "lockedOf (refund bal u a left) u' a' = lockedOf bal u' a' - (if hasEntry bal u a \<and> u' = u \<and> a' = a then left else 0)"
  using refund_cases[of bal u a left]
  by (auto simp: put_shape put_availOf put_lockedOf)


lemma cancelOrder_single:
  assumes "orderbooks e = [ob]" "baseAsset ob = ''TATA''"
  shows "cancelOrder oid market e =
     (if market \<noteq> ''TATA_INR'' then (e, Inl (Error ''No orderbook found''))
      else case foundOrder oid ob of
             None \<Rightarrow> (e, Inl (Error ''No order found''))
           | Some ord \<Rightarrow>
               (e\<lparr>orderbooks := [cancelled ord ob],
                  balances := refund (balances e) (userId ord)
                                (if side ord = Buy then ''INR'' else ''TATA'') (leftOf ord)\<rparr>,
                Inr (ORDER_CANCELLED oid 0 0)))"
  using assms
  by (auto simp: cancelOrder_def ticker_TATA Let_def foundOrder_def cancelled_def refund_def leftOf_def
        split: option.splits)


lemma cancelled_fields [simp]:
  "stpMode (cancelled ord ob) = stpMode ob" "baseAsset (cancelled ord ob) = baseAsset ob"
  by (simp_all add: cancelled_def)


lemma fst_process_create:
  "fst (process oid (CREATE_ORDER market p q sd uid) e) = fst (createOrder oid market p q sd uid e)"
  by (simp add: Let_def split: prod.splits sum.splits)

lemma fst_process_cancel:
  "fst (process oid (CANCEL_ORDER cid market) e) = fst (cancelOrder cid market e)"
  by (simp split: prod.splits sum.splits)





















subsection \<open>How much a ledger step can take from a locked balance\<close>

lemma takesAtMost_addAvailable: "takesAtMost (addAvailable u' a' v) u a 0"
  by (simp add: takesAtMost_def)

lemma takesAtMost_subtractLocked:
  assumes "0 \<le> v"
  shows "takesAtMost (subtractLocked u' a' v) u a (if u' = u \<and> a' = a then v else 0)"
proof -
  have "lockedOf bal u a - (if u' = u \<and> a' = a then v else 0)
          \<le> lockedOf (fst (subtractLocked u' a' v bal)) u a" for bal
    using assms by (cases "hasEntry bal u' a'") simp_all
  then show ?thesis unfolding takesAtMost_def by blast
qed

lemma takesAtMost_andThen:
  assumes "takesAtMost f u a c1" "takesAtMost g u a c2" "0 \<le> c2"
  shows "takesAtMost (andThen f g) u a (c1 + c2)"
proof -
  have "lockedOf bal u a - (c1 + c2) \<le> lockedOf (fst (andThen f g bal)) u a" for bal
  proof (cases "snd (f bal)")
    case None
    have "lockedOf bal u a - c1 \<le> lockedOf (fst (f bal)) u a" using assms(1) by (simp add: takesAtMost_def)
    moreover have "lockedOf (fst (f bal)) u a - c2 \<le> lockedOf (fst (g (fst (f bal)))) u a"
      using assms(2) by (simp add: takesAtMost_def)
    ultimately show ?thesis using None by (simp add: andThen_ok[where f = f and bal = bal])
  next
    case (Some err)
    have "lockedOf bal u a - c1 \<le> lockedOf (fst (f bal)) u a" using assms(1) by (simp add: takesAtMost_def)
    then show ?thesis using Some assms(3) by (simp add: andThen_fail[where f = f and bal = bal])
  qed
  then show ?thesis by (simp add: takesAtMost_def)
qed

lemma takesAtMost_whenUser:
  assumes "takesAtMost f u a c" "0 \<le> c"
  shows "takesAtMost (whenUser u' f) u a c"
  using assms by (simp add: takesAtMost_def whenUser_def)

lemma payerCost_nonneg: "0 \<le> qty f * fprice f \<Longrightarrow> 0 \<le> payerCost sd uid f w"
  by (simp add: payerCost_def)

lemma takesAtMost_settleFill:
  assumes "base \<noteq> quote" "0 \<le> qty f * fprice f"
  shows "takesAtMost (settleFill uid base quote sd f) w quote (payerCost sd uid f w)"
proof (cases sd)
  case Buy
  have m: "takesAtMost (andThen (addAvailable (otherUserId f) quote (qty f * fprice f))
                                (subtractLocked (otherUserId f) base (qty f))) w quote (0 + 0)"
    by (rule takesAtMost_andThen[OF takesAtMost_addAvailable])
       (use assms(1) in \<open>simp_all add: takesAtMost_def\<close>)
  have t: "takesAtMost (andThen (subtractLocked uid quote (qty f * fprice f))
                                (addAvailable uid base (qty f))) w quote
             ((if uid = w \<and> quote = quote then qty f * fprice f else 0) + 0)"
    by (rule takesAtMost_andThen[OF takesAtMost_subtractLocked[OF assms(2)] takesAtMost_addAvailable]) simp
  have "takesAtMost (andThen (whenUser (otherUserId f)
                       (andThen (addAvailable (otherUserId f) quote (qty f * fprice f))
                                (subtractLocked (otherUserId f) base (qty f))))
                     (whenUser uid
                       (andThen (subtractLocked uid quote (qty f * fprice f))
                                (addAvailable uid base (qty f))))) w quote
          ((0 + 0) + ((if uid = w \<and> quote = quote then qty f * fprice f else 0) + 0))"
    using assms(2)
    by (intro takesAtMost_andThen takesAtMost_whenUser m t) simp_all
  then show ?thesis using Buy by (simp add: settleFill_def Let_def payerCost_def eq_commute[of w uid])
next
  case Sell
  have m: "takesAtMost (andThen (subtractLocked (otherUserId f) quote (qty f * fprice f))
                                (addAvailable (otherUserId f) base (qty f))) w quote
             ((if otherUserId f = w \<and> quote = quote then qty f * fprice f else 0) + 0)"
    by (rule takesAtMost_andThen[OF takesAtMost_subtractLocked[OF assms(2)] takesAtMost_addAvailable]) simp
  have t: "takesAtMost (andThen (addAvailable uid quote (qty f * fprice f))
                                (subtractLocked uid base (qty f))) w quote (0 + 0)"
    by (rule takesAtMost_andThen[OF takesAtMost_addAvailable])
       (use assms(1) in \<open>simp_all add: takesAtMost_def\<close>)
  have "takesAtMost (andThen (whenUser (otherUserId f)
                       (andThen (subtractLocked (otherUserId f) quote (qty f * fprice f))
                                (addAvailable (otherUserId f) base (qty f))))
                     (whenUser uid
                       (andThen (addAvailable uid quote (qty f * fprice f))
                                (subtractLocked uid base (qty f))))) w quote
          (((if otherUserId f = w \<and> quote = quote then qty f * fprice f else 0) + 0) + (0 + 0))"
    using assms(2)
    by (intro takesAtMost_andThen takesAtMost_whenUser m t) simp_all
  then show ?thesis using Sell by (simp add: settleFill_def Let_def payerCost_def eq_commute[of w "otherUserId f"])
qed

lemma takesAtMost_updateBalance:
  assumes "base \<noteq> quote" "\<forall>f\<in>set fs. 0 \<le> qty f * fprice f"
  shows "takesAtMost (updateBalance uid base quote sd fs) w quote
           (sum_list (map (\<lambda>f. payerCost sd uid f w) fs))
       \<and> 0 \<le> sum_list (map (\<lambda>f. payerCost sd uid f w) fs)"
  using assms(2)
proof (induction fs)
  case Nil
  show ?case by (simp add: takesAtMost_def)
next
  case (Cons f fs)
  have eq: "updateBalance uid base quote sd (f # fs)
      = andThen (settleFill uid base quote sd f) (updateBalance uid base quote sd fs)"
    by (simp add: fun_eq_iff)
  have v: "0 \<le> qty f * fprice f" using Cons.prems by simp
  have ih: "takesAtMost (updateBalance uid base quote sd fs) w quote
              (sum_list (map (\<lambda>f. payerCost sd uid f w) fs))"
    "0 \<le> sum_list (map (\<lambda>f. payerCost sd uid f w) fs)"
    using Cons by simp_all
  show ?case
    unfolding eq
    using takesAtMost_andThen[OF takesAtMost_settleFill[OF assms(1) v] ih] ih(2) payerCost_nonneg[OF v, of sd uid w]
    by simp
qed

lemma payerCost_sum_Buy:
  "sum_list (map (\<lambda>f. payerCost Buy uid f w) fs) = (if w = uid then fillsValue fs else 0)"
  by (induction fs) (simp_all add: payerCost_def fillsValue_def)

lemma payerCost_sum_Sell:
  "sum_list (map (\<lambda>f. payerCost Sell uid f w) fs) = fillValue w fs"
  by (induction fs) (simp_all add: payerCost_def fillValue_def)

subsection \<open>What a settlement that runs through takes from the taker's locked quote\<close>

lemma takesExactly_andThen:
  assumes "takesExactly f u a c1" "takesExactly g u a c2" "keepsShape f"
  shows "takesExactly (andThen f g) u a (c1 + c2)"
proof -
  have "lockedOf (fst (andThen f g bal)) u a = lockedOf bal u a - (c1 + c2)"
    if p: "bal u \<noteq> None" and ok: "snd (andThen f g bal) = None" for bal
  proof -
    from ok have 1: "snd (f bal) = None" and 2: "snd (g (fst (f bal))) = None"
      unfolding andThen_snd_None by simp_all
    have p': "fst (f bal) u \<noteq> None" using p keepsShapeD(2)[OF assms(3), of bal u] by simp
    have "lockedOf (fst (f bal)) u a = lockedOf bal u a - c1" using assms(1) p 1 by (simp add: takesExactly_def)
    moreover have "lockedOf (fst (g (fst (f bal)))) u a = lockedOf (fst (f bal)) u a - c2"
      using assms(2) p' 2 by (simp add: takesExactly_def)
    ultimately show ?thesis by (simp add: andThen_ok[where f = f and bal = bal, OF 1])
  qed
  then show ?thesis by (simp add: takesExactly_def)
qed

lemma takesExactly_untouched:
  "(\<And>bal. lockedOf (fst (f bal)) u a = lockedOf bal u a) \<Longrightarrow> takesExactly f u a 0"
  by (simp add: takesExactly_def)

lemma takesExactly_settleFill_Buy:
  assumes "base \<noteq> quote"
  shows "takesExactly (settleFill uid base quote Buy f) uid quote (qty f * fprice f)"
proof -
  let ?M = "whenUser (otherUserId f)
              (andThen (addAvailable (otherUserId f) quote (qty f * fprice f))
                       (subtractLocked (otherUserId f) base (qty f)))"
  let ?T = "whenUser uid
              (andThen (subtractLocked uid quote (qty f * fprice f)) (addAvailable uid base (qty f)))"
  have m: "takesExactly ?M uid quote 0"
  proof (rule takesExactly_untouched)
    fix bal
    show "lockedOf (fst (?M bal)) uid quote = lockedOf bal uid quote"
    proof (cases "bal (otherUserId f) = None")
      case True then show ?thesis by (simp add: whenUser_absent[where bal = bal])
    next
      case False
      show ?thesis
        unfolding whenUser_present[where bal = bal and u = "otherUserId f", OF False]
        using assms
        by (cases "snd (addAvailable (otherUserId f) quote (qty f * fprice f) bal)")
           (simp_all add: andThen_ok[where bal = bal] andThen_fail[where bal = bal])
    qed
  qed
  have t: "takesExactly ?T uid quote (qty f * fprice f)"
    unfolding takesExactly_def
  proof (intro allI impI)
    fix bal assume a: "bal uid \<noteq> None \<and> snd (?T bal) = None"
    then have p: "bal uid \<noteq> None" by simp
    have run: "?T bal = andThen (subtractLocked uid quote (qty f * fprice f)) (addAvailable uid base (qty f)) bal"
      by (rule whenUser_present[where bal = bal and u = uid, OF p])
    from a have ok: "snd (subtractLocked uid quote (qty f * fprice f) bal) = None"
      unfolding run andThen_snd_None by simp
    then have h: "hasEntry bal uid quote" by simp
    show "lockedOf (fst (?T bal)) uid quote = lockedOf bal uid quote - qty f * fprice f"
      unfolding run andThen_ok[where f = "subtractLocked uid quote (qty f * fprice f)" and bal = bal, OF ok]
      using h by simp
  qed
  have k: "keepsShape ?M" by simp
  have "takesExactly (andThen ?M ?T) uid quote (0 + qty f * fprice f)"
    by (rule takesExactly_andThen[OF m t k])
  then show ?thesis by (simp add: settleFill_def Let_def)
qed

lemma takesExactly_updateBalance_Buy:
  assumes "base \<noteq> quote"
  shows "takesExactly (updateBalance uid base quote Buy fs) uid quote (fillsValue fs)"
proof (induction fs)
  case Nil
  show ?case by (simp add: takesExactly_def fillsValue_def)
next
  case (Cons f fs)
  have eq: "updateBalance uid base quote Buy (f # fs)
      = andThen (settleFill uid base quote Buy f) (updateBalance uid base quote Buy fs)"
    by (simp add: fun_eq_iff)
  have "takesExactly (andThen (settleFill uid base quote Buy f) (updateBalance uid base quote Buy fs))
          uid quote (qty f * fprice f + fillsValue fs)"
    by (rule takesExactly_andThen[OF takesExactly_settleFill_Buy[OF assms] Cons]) simp
  then show ?case unfolding eq by (simp add: fillsValue_def)
qed

subsection \<open>Properties that every resting order keeps\<close>

lemma matchOrder_pointwise:
  assumes step: "\<And>x v. Q x \<Longrightarrow> v < quantity x \<Longrightarrow> Q (x\<lparr>filled := v\<rparr>)"
    and init: "\<forall>x\<in>set (oppositeBook sd ob). Q x"
  shows "\<forall>x\<in>set (oppositeBook sd (fst (matchOrder incoming sd ob))). Q x"
proof -
  let ?res = "matchLoop incoming sd 0 [] 0 (quantity incoming) ob"
  let ?P = "\<lambda>(i::nat) (fs::fill list) (e::decimal) (q::decimal) ob'. \<forall>x\<in>set (oppositeBook sd ob'). Q x"
  have "\<exists>i' q'. ?P i' (fst (snd ?res)) (snd (snd ?res)) q' (fst ?res)
          \<and> \<not> (i' < length (oppositeBook sd (fst ?res)) \<and> q' > 0
               \<and> pricesCross sd (oppositeBook sd (fst ?res) ! i') incoming)"
  proof (rule matchLoop_rule[where P = ?P])
    show "?P 0 [] 0 (quantity incoming) ob" using init by simp
  next
    fix i fs e q ob'
    assume "?P i fs e q ob'"
    then show "?P (i + 1) fs e q ob'" by simp
  next
    fix i fs' e' q' ob1 mk fq ob'
    assume P: "?P i fs' e' q' ob1" and i: "i < length (oppositeBook sd ob1)" and q: "q' > 0"
      and mk: "mk = oppositeBook sd ob1 ! i" and fq: "fq = min q' (quantity mk - filled mk)"
      and ob': "ob' = executeTrade sd i fq ob1"
    let ?bk = "oppositeBook sd ob1"
    let ?mk' = "mk\<lparr>filled := filled mk + fq\<rparr>"
    have bk': "oppositeBook sd ob' = ?bk[i := ?mk']" using ob' mk by simp
    have mkin: "mk \<in> set ?bk" using i mk by simp
    have le: "fq \<le> quantity mk - filled mk" using fq by simp
    show "if filled mk + fq = quantity mk
          then ?P i (fs' @ [mkFill mk fq (lastTradeId ob1)]) (e' + fq) (q' - fq)
                 (setOppositeBook sd (removeAt i (oppositeBook sd ob')) ob')
          else ?P (i + 1) (fs' @ [mkFill mk fq (lastTradeId ob1)]) (e' + fq) (q' - fq) ob'"
    proof (cases "filled mk + fq = quantity mk")
      case True
      have rm: "removeAt i (?bk[i := ?mk']) = removeAt i ?bk"
        by (simp add: removeAt_def)
      have "set (removeAt i ?bk) \<subseteq> set ?bk" by (rule set_removeAt_subset)
      then have "\<forall>x\<in>set (removeAt i (?bk[i := ?mk'])). Q x" unfolding rm using P by blast
      then show ?thesis using True by (simp add: bk')
    next
      case False
      then have lt: "filled mk + fq < quantity mk" using le by simp
      have "Q ?mk'" using step[of mk "filled mk + fq"] P mkin lt by simp
      moreover have "set (?bk[i := ?mk']) \<subseteq> insert ?mk' (set ?bk)" by (rule set_update_subset_insert)
      ultimately have "\<forall>x\<in>set (?bk[i := ?mk']). Q x" using P by blast
      then show ?thesis using False by (simp add: bk')
    qed
  qed
  then show ?thesis by (simp add: matchOrder_def)
qed

lemma addOrder_pointwise:
  assumes mode: "stpMode ob = CANCEL_NEWEST"
    and step: "\<And>x v. Qopp x \<Longrightarrow> v < quantity x \<Longrightarrow> Qopp (x\<lparr>filled := v\<rparr>)"
    and new: "\<And>v. v < quantity ord \<Longrightarrow> Qown (ord\<lparr>filled := v\<rparr>)"
    and init: "bothSides (side ord) Qown Qopp ob"
  shows "bothSides (side ord) Qown Qopp (fst (addOrder ord ob))"
proof (cases "conflictingOrders ord (oppositeBook (side ord) ob) = []")
  case False
  then show ?thesis using mode init by (simp add: addOrder_unfold Let_def)
next
  case True
  obtain ob2 fs ex where m: "matchOrder ord (side ord) ob = (ob2, fs, ex)" by (cases "matchOrder ord (side ord) ob")
  have a: "addOrder ord ob = finishOrder ord (ob2, fs, ex)" using True m by (simp add: addOrder_unfold Let_def)
  have opp: "\<forall>x\<in>set (oppositeBook (side ord) ob2). Qopp x"
    using matchOrder_pointwise[of Qopp "side ord" ob ord, OF step] init m by (simp add: bothSides_def)
  have own: "\<forall>x\<in>set (ownBook (side ord) ob2). Qown x"
    using matchOrder_own[of "side ord" ord ob] init m by (simp add: bothSides_def)
  show ?thesis
  proof (cases "ex < quantity ord")
    case False
    then show ?thesis unfolding a using opp own by (simp add: finishOrder_def bothSides_def)
  next
    case True
    let ?o = "ord\<lparr>filled := ex\<rparr>"
    have s: "side ?o = side ord" by simp
    have f: "fst (finishOrder ord (ob2, fs, ex)) = restOrder ?o ob2" using True by (simp add: finishOrder_def)
    have 1: "ownBook (side ord) (restOrder ?o ob2)
          = insertAt (findInsertIndex (ownBook (side ord) ob2) (price ?o) (side ord)) ?o (ownBook (side ord) ob2)"
      using restOrder_books(1)[of ?o ob2] by simp
    have 2: "oppositeBook (side ord) (restOrder ?o ob2) = oppositeBook (side ord) ob2"
      using restOrder_books(2)[of ?o ob2] by simp
    show ?thesis unfolding a f bothSides_def 1 2 using opp own new[OF True] by (simp add: set_insertAt)
  qed
qed

subsection \<open>The book of the one market\<close>

lemma bothSides_sidesOk:
  "sidesOk ob \<longleftrightarrow> bothSides sd (\<lambda>x. side x = sd) (\<lambda>x. side x = otherSide sd) ob"
  by (cases sd) (auto simp: sidesOk_def bothSides_def ownBook_def oppositeBook_def otherSide_def)

lemma bothSides_restingOpen:
  "restingOpen ob \<longleftrightarrow> bothSides sd (\<lambda>x. filled x < quantity x) (\<lambda>x. filled x < quantity x) ob"
  by (cases sd) (auto simp: restingOpen_def bothSides_def ownBook_def oppositeBook_def)

lemma bothSides_prices:
  "(\<forall>x\<in>set (bids ob) \<union> set (asks ob). 0 < price x)
     \<longleftrightarrow> bothSides sd (\<lambda>x. 0 < price x) (\<lambda>x. 0 < price x) ob"
  by (cases sd) (auto simp: bothSides_def ownBook_def oppositeBook_def)

lemma addOrder_marketBook:
  assumes "marketBook ob" "0 < price ord"
  shows "marketBook (fst (addOrder ord ob))"
proof -
  have mode: "stpMode ob = CANCEL_NEWEST" using assms(1) by (simp add: marketBook_def)
  have 1: "sidesOk (fst (addOrder ord ob))"
    unfolding bothSides_sidesOk[of _ "side ord"]
    by (rule addOrder_pointwise[OF mode])
       (use assms(1) in \<open>simp_all add: marketBook_def bothSides_sidesOk[of ob "side ord", symmetric]\<close>)
  have 2: "restingOpen (fst (addOrder ord ob))"
    unfolding bothSides_restingOpen[of _ "side ord"]
    by (rule addOrder_pointwise[OF mode])
       (use assms(1) in \<open>simp_all add: marketBook_def bothSides_restingOpen[of ob "side ord", symmetric]\<close>)
  have 3: "bothSides (side ord) (\<lambda>x. 0 < price x) (\<lambda>x. 0 < price x) (fst (addOrder ord ob))"
    by (rule addOrder_pointwise[OF mode])
       (use assms in \<open>simp_all add: marketBook_def bothSides_prices[of ob "side ord", symmetric]\<close>)
  show ?thesis
    unfolding marketBook_def bothSides_prices[of _ "side ord"]
    using 1 2 3 assms(1) by (simp add: marketBook_def)
qed

lemma cancelled_books:
  "set (bids (cancelled ord ob)) \<subseteq> set (bids ob)" "set (asks (cancelled ord ob)) \<subseteq> set (asks ob)"
  "baseAsset (cancelled ord ob) = baseAsset ob" "stpMode (cancelled ord ob) = stpMode ob"
  by (auto simp: cancelled_def cancelBid_unfold cancelAsk_unfold split: option.splits
           dest: subsetD[OF set_removeAt_subset])

lemma cancelled_marketBook:
  assumes "marketBook ob"
  shows "marketBook (cancelled ord ob)"
  using assms cancelled_books[of ord ob]
  unfolding marketBook_def sidesOk_def restingOpen_def by (simp add: subset_iff) blast

subsection \<open>Locked quote funds that no resting bid accounts for\<close>

lemma marketEngine_iff: "marketEngine e \<longleftrightarrow> (\<exists>ob. orderbooks e = [ob] \<and> marketBook ob)"
  by (cases "orderbooks e") (auto simp: marketEngine_def)

lemma excessLocked_single:
  "orderbooks e = [ob] \<Longrightarrow> excessLocked e u = lockedOf (balances e) u ''INR'' - restValue u (bids ob)"
  by (simp add: excessLocked_def restingBidValue_def BASE_CURRENCY_def)

lemma fillsValue_le:
  "\<forall>f\<in>set fs. 0 \<le> qty f \<and> fprice f \<le> p \<Longrightarrow> fillsValue fs \<le> sum_list (map qty fs) * p"
proof (induction fs)
  case Nil show ?case by (simp add: fillsValue_def)
next
  case (Cons f fs)
  have "qty f * fprice f \<le> qty f * p" using Cons.prems by (simp add: mult_left_mono)
  moreover have "fillsValue fs \<le> sum_list (map qty fs) * p" using Cons by simp
  ultimately show ?case by (simp add: fillsValue_def algebra_simps)
qed

lemma fillsValue_less:
  "fs \<noteq> [] \<Longrightarrow> \<forall>f\<in>set fs. 0 < qty f \<and> fprice f < p \<Longrightarrow> fillsValue fs < sum_list (map qty fs) * p"
proof (induction fs)
  case Nil then show ?case by simp
next
  case (Cons f fs)
  have 1: "qty f * fprice f < qty f * p" using Cons.prems by simp
  have "\<forall>g\<in>set fs. 0 \<le> qty g \<and> fprice g \<le> p" using Cons.prems(2) by (simp add: less_imp_le)
  then have "fillsValue fs \<le> sum_list (map qty fs) * p" by (rule fillsValue_le)
  with 1 show ?case by (simp add: fillsValue_def algebra_simps)
qed

subsection \<open>What addOrder does to the bids, in the mode of the engine\<close>

lemma addOrder_newest_cases:
  assumes "stpMode ob = CANCEL_NEWEST"
  shows "(status (snd (addOrder ord ob)) = REJECTED \<and> addOrder ord ob = (ob, rejectedNewest))
       \<or> (status (snd (addOrder ord ob)) \<noteq> REJECTED
          \<and> addOrder ord ob = finishOrder ord (matchOrder ord (side ord) ob))"
proof (cases "conflictingOrders ord (oppositeBook (side ord) ob) = []")
  case True
  then have a: "addOrder ord ob = finishOrder ord (matchOrder ord (side ord) ob)"
    by (simp add: addOrder_unfold Let_def)
  show ?thesis unfolding a by (simp add: finishOrder_def split: prod.splits)
next
  case False
  then show ?thesis using assms by (simp add: addOrder_unfold Let_def rejectedNewest_def)
qed

lemma finishOrder_result:
  "executedQty (snd (finishOrder ord (ob2, fs, ex))) = ex"
  "fills (snd (finishOrder ord (ob2, fs, ex))) = fs"
  by (simp_all add: finishOrder_def)

lemma finishOrder_bids_value:
  "restValue w (bids (fst (finishOrder ord (ob2, fs, ex))))
     = restValue w (bids ob2)
       + (if side ord = Buy \<and> ex < quantity ord \<and> userId ord = w then (quantity ord - ex) * price ord else 0)"
  by (simp add: finishOrder_def restOrder_def Let_def restValue_insertAt)

text \<open>An order that is not rejected: a buy leaves the bids as they were and adds what is
  left of it; a sell takes from the bids what its fills are worth at the makers' prices.\<close>

lemma addOrder_bids_value:
  assumes mk: "marketBook ob" and nr: "status (snd (addOrder ord ob)) \<noteq> REJECTED"
  shows "restValue w (bids (fst (addOrder ord ob)))
           = restValue w (bids ob)
             + (if side ord = Buy
                then (if executedQty (snd (addOrder ord ob)) < quantity ord \<and> userId ord = w
                      then (quantity ord - executedQty (snd (addOrder ord ob))) * price ord else 0)
                else - fillValue w (fills (snd (addOrder ord ob))))"
    and "executedQty (snd (addOrder ord ob)) = sum_list (map qty (fills (snd (addOrder ord ob))))"
    and "0 < quantity ord \<Longrightarrow> executedQty (snd (addOrder ord ob)) \<le> quantity ord"
    and "\<forall>f\<in>set (fills (snd (addOrder ord ob))). 0 < qty f \<and> 0 < fprice f"
proof -
  have mode: "stpMode ob = CANCEL_NEWEST" using mk by (simp add: marketBook_def)
  have op: "\<forall>x\<in>set (oppositeBook (side ord) ob). filled x < quantity x"
    using mk by (simp add: marketBook_def restingOpen_generic[of ob "side ord"])
  obtain ob2 fs ex where m: "matchOrder ord (side ord) ob = (ob2, fs, ex)" by (cases "matchOrder ord (side ord) ob")
  have a: "addOrder ord ob = finishOrder ord (ob2, fs, ex)"
    using addOrder_newest_cases[OF mode, of ord] nr m by auto
  have acc: "ex = sum_list (map qty fs)" "0 < quantity ord \<Longrightarrow> ex \<le> quantity ord" "\<forall>f\<in>set fs. 0 < qty f"
    "restValue w (oppositeBook (side ord) ob2) = restValue w (oppositeBook (side ord) ob) - fillValue w fs"
    using matchOrder_account(1-3)[OF op, where incoming = ord]
      matchOrder_account(4)[OF op, where incoming = ord and w = w] m by simp_all
  have own: "ownBook (side ord) ob2 = ownBook (side ord) ob"
    using matchOrder_own[of "side ord" ord ob] m by simp
  have b2: "restValue w (bids ob2) = restValue w (bids ob) - (if side ord = Buy then 0 else fillValue w fs)"
    using acc(4) own by (cases "side ord") (simp_all add: ownBook_def oppositeBook_def)
  show "restValue w (bids (fst (addOrder ord ob)))
           = restValue w (bids ob)
             + (if side ord = Buy
                then (if executedQty (snd (addOrder ord ob)) < quantity ord \<and> userId ord = w
                      then (quantity ord - executedQty (snd (addOrder ord ob))) * price ord else 0)
                else - fillValue w (fills (snd (addOrder ord ob))))"
    unfolding a finishOrder_bids_value finishOrder_result b2 by simp
  show "executedQty (snd (addOrder ord ob)) = sum_list (map qty (fills (snd (addOrder ord ob))))"
    unfolding a finishOrder_result by (rule acc(1))
  show "0 < quantity ord \<Longrightarrow> executedQty (snd (addOrder ord ob)) \<le> quantity ord"
    unfolding a finishOrder_result by (rule acc(2))
  have pr: "\<forall>f\<in>set fs. 0 < fprice f"
  proof
    fix f assume "f \<in> set fs"
    then have "fillOf (side ord) ord (oppositeBook (side ord) ob) f"
      using matchOrder_fillOf[of ord "side ord" ob] m by simp
    then obtain x where "x \<in> set (oppositeBook (side ord) ob)" "fprice f = price x"
      unfolding fillOf_def by blast
    moreover have "\<forall>x\<in>set (oppositeBook (side ord) ob). 0 < price x"
      using mk by (cases "side ord") (simp_all add: marketBook_def oppositeBook_def)
    ultimately show "0 < fprice f" by simp
  qed
  show "\<forall>f\<in>set (fills (snd (addOrder ord ob))). 0 < qty f \<and> 0 < fprice f"
    unfolding a finishOrder_result using acc(3) pr by simp
qed

lemma fills_at_or_below_limit:
  "side ord = Buy \<Longrightarrow> \<forall>f\<in>set (fills (snd (addOrder ord ob))). fprice f \<le> price ord"
  using addOrder_fillOf[of ord ob] by (auto simp: fillOf_def pricesCross_def)

subsection \<open>Placing an order never lowers the excess\<close>

lemma settle_lower_bound:
  assumes "\<forall>f\<in>set fs. 0 < qty f \<and> 0 < fprice f"
  shows "lockedOf bal1 w ''INR'' - (if sd = Buy then (if w = uid then fillsValue fs else 0) else fillValue w fs)
           \<le> lockedOf (fst (updateBalance uid ''TATA'' ''INR'' sd fs bal1)) w ''INR''"
proof -
  have ne: "''TATA'' \<noteq> ''INR''" by simp
  have v: "\<forall>f\<in>set fs. 0 \<le> qty f * fprice f" using assms by (simp add: less_imp_le)
  have "takesAtMost (updateBalance uid ''TATA'' ''INR'' sd fs) w ''INR''
          (sum_list (map (\<lambda>f. payerCost sd uid f w) fs))"
    using takesAtMost_updateBalance[OF ne v, of uid sd w] by blast
  then have "lockedOf bal1 w ''INR'' - sum_list (map (\<lambda>f. payerCost sd uid f w) fs)
           \<le> lockedOf (fst (updateBalance uid ''TATA'' ''INR'' sd fs bal1)) w ''INR''"
    unfolding takesAtMost_def by blast
  then show ?thesis
    by (cases sd) (simp_all add: payerCost_sum_Buy payerCost_sum_Sell)
qed

lemma createOrder_excess:
  assumes me: "marketEngine e" and p: "0 < p" and q: "0 < q"
  shows "marketEngine (fst (createOrder oid market p q sd uid e))
       \<and> excessLocked e w \<le> excessLocked (fst (createOrder oid market p q sd uid e)) w"
proof -
  obtain ob where ob: "orderbooks e = [ob]" and mk: "marketBook ob" using me unfolding marketEngine_iff by blast
  have base: "baseAsset ob = ''TATA''" and mode: "stpMode ob = CANCEL_NEWEST" using mk by (simp_all add: marketBook_def)
  show ?thesis
  proof (cases "market = ''TATA_INR''")
    case False
    show ?thesis unfolding createOrder_other_market[OF ob base False] using me by simp
  next
    case True
    show ?thesis
    proof (cases "checkAndLockFunds ''TATA'' ''INR'' sd uid p q (balances e)")
      case (Inl err)
      show ?thesis unfolding True createOrder_lock_fails[OF ob base Inl] using me by simp
    next
      case (Inr bal1)
      let ?ord = "newOrder oid p q sd uid"
      let ?r = "addOrder ?ord ob"
      let ?fs = "fills (snd ?r)"
      let ?ex = "executedQty (snd ?r)"
      show ?thesis
      proof (cases "status (snd ?r) = REJECTED")
        case True
        have same: "fst ?r = ob" using addOrder_newest_cases[OF mode, of ?ord] True by auto
        obtain err where c: "createOrder oid ''TATA_INR'' p q sd uid e = (e\<lparr>orderbooks := [fst ?r]\<rparr>, Inl err)"
          using createOrder_rejected[OF ob base Inr True] by blast
        have o': "orderbooks (e\<lparr>orderbooks := [ob]\<rparr>) = [ob]" by simp
        show ?thesis
          unfolding \<open>market = ''TATA_INR''\<close> c same
          using mk by (simp add: marketEngine_iff excessLocked_single[OF ob] excessLocked_single[OF o'])
      next
        case False
        let ?bal2 = "fst (updateBalance uid ''TATA'' ''INR'' sd ?fs bal1)"
        let ?e' = "e\<lparr>orderbooks := [fst ?r], balances := ?bal2\<rparr>"
        have c: "fst (createOrder oid ''TATA_INR'' p q sd uid e) = ?e'"
          unfolding createOrder_settles[OF ob base Inr False] by simp
        have o': "orderbooks ?e' = [fst ?r]" and b': "balances ?e' = ?bal2" by simp_all
        have mk': "marketBook (fst ?r)" by (rule addOrder_marketBook[OF mk]) (simp add: p)
        have f1: "restValue w (bids (fst ?r))
               = restValue w (bids ob)
                 + (if sd = Buy then (if ?ex < q \<and> uid = w then (q - ?ex) * p else 0) else - fillValue w ?fs)"
          using addOrder_bids_value(1)[OF mk False, where w = w] by (simp only: newOrder_fields)
        have f2: "?ex = sum_list (map qty ?fs)" by (rule addOrder_bids_value(2)[OF mk False])
        have f3: "?ex \<le> q" using addOrder_bids_value(3)[OF mk False] q by (simp only: newOrder_fields)
        have f4: "\<forall>f\<in>set ?fs. 0 < qty f \<and> 0 < fprice f" by (rule addOrder_bids_value(4)[OF mk False])
        note facts = f1 f2 f3 f4
        have A: "lockedOf bal1 w ''INR'' = lockedOf (balances e) w ''INR'' + (if w = uid \<and> sd = Buy then q * p else 0)"
          unfolding checkAndLockFunds_effect(3)[OF Inr] by (simp add: lockAsset_def lockAmount_def)
        have B: "lockedOf bal1 w ''INR'' - (if sd = Buy then (if w = uid then fillsValue ?fs else 0) else fillValue w ?fs)
                   \<le> lockedOf ?bal2 w ''INR''"
          by (rule settle_lower_bound[OF facts(4)])
        have ex: "excessLocked e w \<le> excessLocked ?e' w"
        proof (cases sd)
          case Sell
          show ?thesis
            unfolding excessLocked_single[OF ob] excessLocked_single[OF o'] b'
            using A B facts(1) Sell by simp
        next
          case Buy
          have le: "\<forall>f\<in>set ?fs. 0 \<le> qty f \<and> fprice f \<le> p"
            using facts(4) fills_at_or_below_limit[of ?ord ob] Buy by (simp add: less_imp_le)
          have fv: "fillsValue ?fs \<le> ?ex * p" unfolding facts(2) by (rule fillsValue_le[OF le])
          have qp: "?ex * p \<le> q * p" using facts(3) p by simp
          have rest: "(q - ?ex) * p = q * p - ?ex * p" by (simp add: algebra_simps)
          show ?thesis
          proof (cases "w = uid")
            case False
            then show ?thesis
              unfolding excessLocked_single[OF ob] excessLocked_single[OF o'] b'
              using A B facts(1) Buy by auto
          next
            case True
            show ?thesis
              unfolding excessLocked_single[OF ob] excessLocked_single[OF o'] b'
              using A B facts(1) Buy True fv qp rest by (cases "?ex < q") simp_all
          qed
        qed
        show ?thesis
          unfolding \<open>market = ''TATA_INR''\<close> c using mk' ex by (simp add: marketEngine_iff)
      qed
    qed
  qed
qed

subsection \<open>A buy that is filled in full below its limit\<close>

lemma createOrder_placed:
  assumes ob: "orderbooks e = [ob]" and mk: "marketBook ob"
    and c: "createOrder oid market p q sd uid e = (e', Inr (ex, fs, oid'))"
  shows "\<exists>bal1. checkAndLockFunds ''TATA'' ''INR'' sd uid p q (balances e) = Inr bal1
         \<and> addOrder (newOrder oid p q sd uid) ob
             = finishOrder (newOrder oid p q sd uid) (matchOrder (newOrder oid p q sd uid) sd ob)
         \<and> ex = executedQty (snd (addOrder (newOrder oid p q sd uid) ob))
         \<and> fs = fills (snd (addOrder (newOrder oid p q sd uid) ob))
         \<and> snd (updateBalance uid ''TATA'' ''INR'' sd fs bal1) = None
         \<and> e' = e\<lparr>orderbooks := [fst (addOrder (newOrder oid p q sd uid) ob)],
                   balances := fst (updateBalance uid ''TATA'' ''INR'' sd fs bal1)\<rparr>"
proof -
  have base: "baseAsset ob = ''TATA''" and mode: "stpMode ob = CANCEL_NEWEST" using mk by (simp_all add: marketBook_def)
  have m: "market = ''TATA_INR''"
  proof (rule ccontr)
    assume "market \<noteq> ''TATA_INR''"
    from createOrder_other_market[OF ob base this] c show False by simp
  qed
  let ?ord = "newOrder oid p q sd uid"
  show ?thesis
  proof (cases "checkAndLockFunds ''TATA'' ''INR'' sd uid p q (balances e)")
    case (Inl err)
    from createOrder_lock_fails[OF ob base Inl, of oid] c m show ?thesis by simp
  next
    case (Inr bal1)
    have nr: "status (snd (addOrder ?ord ob)) \<noteq> REJECTED"
    proof
      assume "status (snd (addOrder ?ord ob)) = REJECTED"
      from createOrder_rejected[OF ob base Inr this] c m show False by auto
    qed
    have a: "addOrder ?ord ob = finishOrder ?ord (matchOrder ?ord sd ob)"
      using addOrder_newest_cases[OF mode, of ?ord] nr by auto
    from createOrder_settles[OF ob base Inr nr] c m
    have "ex = executedQty (snd (addOrder ?ord ob)) \<and> fs = fills (snd (addOrder ?ord ob))
         \<and> snd (updateBalance uid ''TATA'' ''INR'' sd (fills (snd (addOrder ?ord ob))) bal1) = None
         \<and> e' = e\<lparr>orderbooks := [fst (addOrder ?ord ob)],
                   balances := fst (updateBalance uid ''TATA'' ''INR'' sd (fills (snd (addOrder ?ord ob))) bal1)\<rparr>"
      by (cases "snd (updateBalance uid ''TATA'' ''INR'' sd (fills (snd (addOrder ?ord ob))) bal1)") auto
    then show ?thesis using Inr a by blast
  qed
qed

lemma full_fill_residue:
  assumes me: "marketEngine e" and q: "0 < q"
    and c: "createOrder oid market p q Buy uid e = (e', Inr (q, fs, oid'))"
    and below: "\<forall>f\<in>set fs. fprice f < p"
  shows "lockedOf (balances e') uid ''INR'' = lockedOf (balances e) uid ''INR'' + (q * p - fillsValue fs)"
    and "0 < q * p - fillsValue fs"
    and "map bids (orderbooks e') = map bids (orderbooks e)"
    and "excessLocked e' uid = excessLocked e uid + (q * p - fillsValue fs)"
    and "0 < p"
proof -
  obtain ob where ob: "orderbooks e = [ob]" and mk: "marketBook ob" using me unfolding marketEngine_iff by blast
  let ?ord = "newOrder oid p q Buy uid"
  obtain bal1 where lock: "checkAndLockFunds ''TATA'' ''INR'' Buy uid p q (balances e) = Inr bal1"
    and a: "addOrder ?ord ob = finishOrder ?ord (matchOrder ?ord Buy ob)"
    and ex: "q = executedQty (snd (addOrder ?ord ob))"
    and fs: "fs = fills (snd (addOrder ?ord ob))"
    and ok: "snd (updateBalance uid ''TATA'' ''INR'' Buy fs bal1) = None"
    and e': "e' = e\<lparr>orderbooks := [fst (addOrder ?ord ob)],
                     balances := fst (updateBalance uid ''TATA'' ''INR'' Buy fs bal1)\<rparr>"
    using createOrder_placed[OF ob mk c] by blast
  have nr: "status (snd (addOrder ?ord ob)) \<noteq> REJECTED"
    unfolding a by (simp add: finishOrder_def split: prod.splits)
  have facts: "q = sum_list (map qty fs)" "\<forall>f\<in>set fs. 0 < qty f \<and> 0 < fprice f"
    using addOrder_bids_value(2,4)[OF mk nr] ex fs by simp_all
  have present: "bal1 uid \<noteq> None"
    using checkAndLockFunds_Inr(1)[OF lock] checkAndLockFunds_effect(1)[OF lock]
    by (auto simp: sameShape_def hasEntry_def)
  have ne: "''TATA'' \<noteq> ''INR''" by simp
  have "lockedOf (fst (updateBalance uid ''TATA'' ''INR'' Buy fs bal1)) uid ''INR''
          = lockedOf bal1 uid ''INR'' - fillsValue fs"
    using takesExactly_updateBalance_Buy[OF ne, of uid fs] present ok unfolding takesExactly_def by blast
  moreover have "lockedOf bal1 uid ''INR'' = lockedOf (balances e) uid ''INR'' + q * p"
    unfolding checkAndLockFunds_effect(3)[OF lock] by (simp add: lockAsset_def lockAmount_def)
  ultimately show l: "lockedOf (balances e') uid ''INR'' = lockedOf (balances e) uid ''INR'' + (q * p - fillsValue fs)"
    unfolding e' by simp
  have ne': "fs \<noteq> []" using facts(1) q by auto
  then obtain f where "f \<in> set fs" by (cases fs) auto
  then have "0 < fprice f" "fprice f < p" using facts(2) below by simp_all
  then show "0 < p" by simp
  from ne' have "fillsValue fs < sum_list (map qty fs) * p"
    by (rule fillsValue_less) (use facts(2) below in simp)
  then show "0 < q * p - fillsValue fs" using facts(1) by simp
  obtain ob2 fs2 ex2 where m: "matchOrder ?ord Buy ob = (ob2, fs2, ex2)" by (cases "matchOrder ?ord Buy ob")
  have "ex2 = q" using ex unfolding a m by (simp add: finishOrder_result)
  then have "fst (addOrder ?ord ob) = ob2" unfolding a m by (simp add: finishOrder_def)
  moreover have "bids ob2 = bids ob" using matchOrder_own[of Buy ?ord ob] m by (simp add: ownBook_def)
  ultimately have b: "bids (fst (addOrder ?ord ob)) = bids ob" by simp
  show "map bids (orderbooks e') = map bids (orderbooks e)" unfolding e' using ob b by simp
  have o': "orderbooks e' = [fst (addOrder ?ord ob)]" unfolding e' by simp
  show "excessLocked e' uid = excessLocked e uid + (q * p - fillsValue fs)"
    unfolding excessLocked_single[OF ob] excessLocked_single[OF o'] l b by simp
qed

subsection \<open>Cancelling, on-ramp and withdrawal never lower the excess\<close>

lemma find_findIndex:
  "find P xs = Some x \<Longrightarrow> \<exists>i. findIndex P xs = Some i \<and> i < length xs \<and> xs ! i = x"
proof (induction xs)
  case Nil then show ?case by simp
next
  case (Cons y ys)
  show ?case
  proof (cases "P y")
    case True
    then show ?thesis using Cons.prems by simp
  next
    case False
    then have "find P ys = Some x" using Cons.prems by simp
    from Cons.IH[OF this] obtain i where "findIndex P ys = Some i" "i < length ys" "ys ! i = x" by blast
    then show ?thesis using False by simp
  qed
qed

lemma find_Some_set: "find P xs = Some x \<Longrightarrow> x \<in> set xs \<and> P x"
  by (induction xs) (auto split: if_splits)

lemma foundOrder_cases:
  assumes "foundOrder oid ob = Some ord" "sidesOk ob"
  shows "(side ord = Sell \<and> ord \<in> set (asks ob))
       \<or> (side ord = Buy \<and> (\<exists>i. findIndex (\<lambda>y. orderId y = orderId ord) (bids ob) = Some i
                               \<and> i < length (bids ob) \<and> bids ob ! i = ord))"
proof (cases "find (\<lambda>x. orderId x = oid) (asks ob)")
  case (Some a)
  then have "ord = a" using assms(1) by (simp add: foundOrder_def)
  then show ?thesis using find_Some_set[OF Some] assms(2) by (simp add: sidesOk_def)
next
  case None
  then have f: "find (\<lambda>x. orderId x = oid) (bids ob) = Some ord" using assms(1) by (simp add: foundOrder_def)
  have in_bids: "ord \<in> set (bids ob)" and id: "orderId ord = oid" using find_Some_set[OF f] by simp_all
  from find_findIndex[OF f] obtain i where "findIndex (\<lambda>x. orderId x = oid) (bids ob) = Some i"
    "i < length (bids ob)" "bids ob ! i = ord" by blast
  then show ?thesis using in_bids id assms(2) by (simp add: sidesOk_def)
qed

lemma cancelOrder_excess:
  assumes me: "marketEngine e"
  shows "marketEngine (fst (cancelOrder cid market e))
       \<and> excessLocked e w \<le> excessLocked (fst (cancelOrder cid market e)) w"
proof -
  obtain ob where ob: "orderbooks e = [ob]" and mk: "marketBook ob" using me unfolding marketEngine_iff by blast
  have base: "baseAsset ob = ''TATA''" and ok: "sidesOk ob" using mk by (simp_all add: marketBook_def)
  show ?thesis
  proof (cases "market = ''TATA_INR'' \<and> foundOrder cid ob \<noteq> None")
    case False
    then show ?thesis using me by (auto simp: cancelOrder_single[OF ob base])
  next
    case True
    then obtain ord where f: "foundOrder cid ob = Some ord" by blast
    let ?bal' = "refund (balances e) (userId ord) (if side ord = Buy then ''INR'' else ''TATA'') (leftOf ord)"
    let ?e' = "e\<lparr>orderbooks := [cancelled ord ob], balances := ?bal'\<rparr>"
    have c: "fst (cancelOrder cid market e) = ?e'" using True f by (simp add: cancelOrder_single[OF ob base])
    have o': "orderbooks ?e' = [cancelled ord ob]" and b': "balances ?e' = ?bal'" by simp_all
    have mk': "marketBook (cancelled ord ob)" by (rule cancelled_marketBook[OF mk])
    have ex: "excessLocked e w \<le> excessLocked ?e' w"
    proof (cases "side ord")
      case Sell
      have 1: "bids (cancelled ord ob) = bids ob" using Sell by (simp add: cancelled_def)
      have 2: "lockedOf ?bal' w ''INR'' = lockedOf (balances e) w ''INR''"
        using Sell by (simp add: refund_effect(3))
      show ?thesis unfolding excessLocked_single[OF ob] excessLocked_single[OF o'] b' 1 2 by simp
    next
      case Buy
      from foundOrder_cases[OF f ok] Buy obtain i where
        i: "findIndex (\<lambda>y. orderId y = orderId ord) (bids ob) = Some i" "i < length (bids ob)" "bids ob ! i = ord"
        by auto
      have in_bids: "ord \<in> set (bids ob)" using i(2,3) nth_mem by blast
      have left: "leftOf ord = (quantity ord - filled ord) * price ord" using Buy by (simp add: leftOf_def)
      have "filled ord < quantity ord" "0 < price ord"
        using mk in_bids by (simp_all add: marketBook_def restingOpen_def)
      then have nonneg: "0 \<le> leftOf ord" unfolding left by simp
      have 1: "bids (cancelled ord ob) = removeAt i (bids ob)"
        using Buy i(1) by (simp add: cancelled_def cancelBid_unfold)
      have 2: "restValue w (removeAt i (bids ob))
             = restValue w (bids ob) - (if userId ord = w then leftOf ord else 0)"
        unfolding restValue_removeAt[OF i(2)] i(3) left by simp
      have 3: "lockedOf ?bal' w ''INR''
             = lockedOf (balances e) w ''INR''
               - (if hasEntry (balances e) (userId ord) ''INR'' \<and> w = userId ord then leftOf ord else 0)"
        using Buy by (simp add: refund_effect(3))
      show ?thesis
        unfolding excessLocked_single[OF ob] excessLocked_single[OF o'] b' 1 2 3
        using nonneg by auto
    qed
    show ?thesis unfolding c using mk' ex by (simp add: marketEngine_iff)
  qed
qed

lemma onRamp_locked: "lockedOf (onRamp uid amount bal) w a = lockedOf bal w a"
  by (auto simp: onRamp_def lockedOf_def Let_def split: option.splits)

lemma withdraw_locked:
  "withdraw uid amount bal = Inr (bal', left) \<Longrightarrow> lockedOf bal' w a = lockedOf bal w a"
  by (auto simp: withdraw_def lockedOf_def split: option.splits if_splits)

lemma excessLocked_cong:
  "orderbooks e' = orderbooks e \<Longrightarrow> (\<And>w. lockedOf (balances e') w BASE_CURRENCY = lockedOf (balances e) w BASE_CURRENCY)
   \<Longrightarrow> excessLocked e' w = excessLocked e w"
  by (simp add: excessLocked_def restingBidValue_def)

lemma marketEngine_cong: "orderbooks e' = orderbooks e \<Longrightarrow> marketEngine e' = marketEngine e"
  by (simp add: marketEngine_def)

lemma process_excess:
  assumes "marketEngine e" "positiveOrder c"
  shows "marketEngine (fst (process oid c e)) \<and> excessLocked e w \<le> excessLocked (fst (process oid c e)) w"
proof (cases c)
  case (CREATE_ORDER market p q sd uid)
  then show ?thesis
    using createOrder_excess[OF assms(1), of p q oid market sd uid w] assms(2)
    by (simp only: fst_process_create positiveOrder.simps)
next
  case (CANCEL_ORDER cid market)
  then show ?thesis
    using cancelOrder_excess[OF assms(1), of cid market w] by (simp only: fst_process_cancel)
next
  case (ON_RAMP uid amount)
  have o: "orderbooks (fst (process oid c e)) = orderbooks e" using ON_RAMP by (simp add: Let_def)
  have b: "balances (fst (process oid c e)) = onRamp uid amount (balances e)" using ON_RAMP by (simp add: Let_def)
  have "excessLocked (fst (process oid c e)) w = excessLocked e w"
    by (rule excessLocked_cong[OF o]) (simp add: b onRamp_locked)
  then show ?thesis using assms(1) marketEngine_cong[OF o] by simp
next
  case (WITHDRAW uid amount txnId)
  show ?thesis
  proof (cases "withdraw uid amount (balances e)")
    case (Inl err)
    then show ?thesis using WITHDRAW assms(1) by simp
  next
    case (Inr r)
    obtain bal' left where r: "r = (bal', left)" by (cases r)
    have o: "orderbooks (fst (process oid c e)) = orderbooks e" using WITHDRAW Inr r by simp
    have b: "balances (fst (process oid c e)) = bal'" using WITHDRAW Inr r by simp
    have "excessLocked (fst (process oid c e)) w = excessLocked e w"
      by (rule excessLocked_cong[OF o]) (simp add: b withdraw_locked[OF Inr[unfolded r]])
    then show ?thesis using assms(1) marketEngine_cong[OF o] by simp
  qed
next
  case (GET_OPEN_ORDERS uid market)
  then show ?thesis using assms(1) by (simp split: option.splits)
next
  case (GET_DEPTH market)
  then show ?thesis using assms(1) by (simp split: option.splits)
next
  case (GET_BALANCE uid)
  then show ?thesis using assms(1) by (simp split: option.splits)
qed

lemma processAll_excess:
  assumes "marketEngine e" "\<forall>c\<in>set cmds. positiveOrder (snd c)"
  shows "marketEngine (processAll cmds e) \<and> excessLocked e w \<le> excessLocked (processAll cmds e) w"
  using assms
proof (induction cmds arbitrary: e)
  case Nil
  then show ?case by simp
next
  case (Cons c cmds)
  obtain oid m where c: "c = (oid, m)" by (cases c)
  have p: "positiveOrder m" using Cons.prems(2) c by simp
  have 1: "marketEngine (fst (process oid m e))" "excessLocked e w \<le> excessLocked (fst (process oid m e)) w"
    using process_excess[OF Cons.prems(1) p, of oid w] by simp_all
  have 2: "marketEngine (processAll cmds (fst (process oid m e)))"
    "excessLocked (fst (process oid m e)) w \<le> excessLocked (processAll cmds (fst (process oid m e))) w"
    using Cons.IH[OF 1(1)] Cons.prems(2) by simp_all
  show ?case unfolding c using 1 2 by simp
qed

lemma marketEngine_newEngine: "marketEngine newEngine"
  by (simp add: marketEngine_def marketBook_def sidesOk_def restingOpen_def fresh_engine_defs)

text \<open>
  The residue of a buy filled below its limit, on an engine whose one book is the market
  \<^verbatim>\<open>TATA_INR\<close> in the state the engine keeps it in (\<open>marketEngine\<close>). Let a buy of quantity
  \<open>q > 0\<close> at limit \<open>p\<close> be placed and filled in full (the executed quantity is \<open>q\<close>) by
  fills whose prices are all below \<open>p\<close>. Then the locked INR of the buyer has grown by
  \<open>q * p - \<Sum> qty * price\<close> over the fills, which is positive; the bids are as they were, so
  the order does not rest; and through every later sequence of commands whose
  \<^verbatim>\<open>CREATE_ORDER\<close>s have positive price and quantity, the locked INR of the buyer stays above
  the value of the buyer's resting bids by at least the excess after the fill: no cancel,
  order, on-ramp or withdrawal moves the residue back to available.
\<close>

theorem locked_residue_stays:
  assumes "marketEngine e" and "0 < q"
    and "createOrder oid market p q Buy uid e = (e', Inr (q, fs, oid'))"
    and "\<forall>f\<in>set fs. fprice f < p"
    and "\<forall>c\<in>set cmds. positiveOrder (snd c)"
  shows "lockedOf (balances e') uid ''INR'' = lockedOf (balances e) uid ''INR'' + (q * p - fillsValue fs)
       \<and> 0 < q * p - fillsValue fs
       \<and> map bids (orderbooks e') = map bids (orderbooks e)
       \<and> excessLocked e' uid = excessLocked e uid + (q * p - fillsValue fs)
       \<and> excessLocked e' uid \<le> excessLocked (processAll cmds e') uid"
proof -
  note r = full_fill_residue[OF assms(1-4)]
  have "fst (createOrder oid market p q Buy uid e) = e'" using assms(3) by simp
  then have "marketEngine e'"
    using createOrder_excess[OF assms(1) r(5) assms(2), of oid market Buy uid uid] by simp
  then have "excessLocked e' uid \<le> excessLocked (processAll cmds e') uid"
    using processAll_excess[OF _ assms(5), of e' uid] by simp
  with r(1-4) show ?thesis by simp
qed

lemmas settle_eval_defs =
  settleFill_def andThen_def whenUser_def addAvailable_def subtractLocked_def

theorem locked_residue_stays_witness:
  "marketEngine askEngine \<and> (0::decimal) < 10
   \<and> createOrder ''b'' ''TATA_INR'' 100 10 Buy ''1'' askEngine = (residueEngine, Inr (10, [cheapFill], ''b''))
   \<and> list_all (\<lambda>f. fprice f < 100) [cheapFill]
   \<and> list_all (\<lambda>c. positiveOrder (snd c)) laterCommands
   \<and> fillsValue [cheapFill] = 900
   \<and> lockedOf (balances residueEngine) ''1'' ''INR''
        = lockedOf (balances askEngine) ''1'' ''INR'' + (10 * 100 - fillsValue [cheapFill])
   \<and> map bids (orderbooks residueEngine) = map bids (orderbooks askEngine)
   \<and> excessLocked residueEngine ''1'' = excessLocked askEngine ''1'' + (10 * 100 - fillsValue [cheapFill])
   \<and> excessLocked residueEngine ''1'' \<le> excessLocked (processAll laterCommands residueEngine) ''1''"
proof -
  have h1: "marketEngine askEngine"
    unfolding askEngine_def
    using process_excess[OF marketEngine_newEngine, of "CREATE_ORDER ''TATA_INR'' 90 10 Sell ''2''" "''a''" "''1''"]
    by simp
  have "snd (createOrder ''b'' ''TATA_INR'' 100 10 Buy ''1'' askEngine) = Inr (10, [cheapFill], ''b'')"
    by (simp add: askEngine_def cheapFill_def fresh_engine_defs create_order_defs book_eval_defs
          settle_eval_defs Let_def)
  then have h2: "createOrder ''b'' ''TATA_INR'' 100 10 Buy ''1'' askEngine
               = (residueEngine, Inr (10, [cheapFill], ''b''))"
    unfolding residueEngine_def by (simp add: prod_eq_iff)
  have h3: "list_all (\<lambda>f. fprice f < 100) [cheapFill]" by (simp add: cheapFill_def)
  have h4: "list_all (\<lambda>c. positiveOrder (snd c)) laterCommands" by (simp add: laterCommands_def)
  have h5: "fillsValue [cheapFill] = 900" by (simp add: fillsValue_def cheapFill_def)
  have h3': "\<forall>f\<in>set [cheapFill]. fprice f < 100" using h3 by simp
  have h4': "\<forall>c\<in>set laterCommands. positiveOrder (snd c)" using h4 by (simp add: list_all_iff)
  have q: "(0::decimal) < 10" by simp
  from locked_residue_stays[OF h1 q h2 h3' h4'] h1 q h2 h3 h4 h5
  show ?thesis by blast
qed

text \<open>
  Claim C10. After a buy is filled in full below its limit, the difference between what was
  locked and what the fills cost stays in the buyer's locked quote balance, and no later
  operation should move it back to available. On the fresh engine user 2 sells 10 at 90 and
  user 1 buys 10 at 100: the buy is filled at 90, no bid rests, and 100 INR of user 1 stay
  locked. A further \<^verbatim>\<open>CREATE_ORDER\<close> of user 1, a buy of quantity \<open>-1\<close> at 100, is answered
  with \<^verbatim>\<open>ORDER_PLACED\<close> and moves these 100 INR from locked to available:
  \<^verbatim>\<open>checkAndLockFunds\<close> subtracts the negative product from available and adds it to
  locked, and \<^verbatim>\<open>createOrder\<close> does not check that the quantity is positive.
\<close>

theorem negative_quantity_releases_residue:
  "map bids (orderbooks (processAll residueCommands newEngine)) = [[]]
   \<and> lockedOf (balances (processAll residueCommands newEngine)) ''1'' ''INR'' = 100
   \<and> availOf (balances (processAll residueCommands newEngine)) ''1'' ''INR'' = 999000
   \<and> snd (process ''g'' (CREATE_ORDER ''TATA_INR'' 100 (- 1) Buy ''1'') (processAll residueCommands newEngine))
       = [ORDER_PLACED ''g'' 0 []]
   \<and> lockedOf (balances (fst (process ''g'' (CREATE_ORDER ''TATA_INR'' 100 (- 1) Buy ''1'')
                                 (processAll residueCommands newEngine)))) ''1'' ''INR'' = 0
   \<and> availOf (balances (fst (process ''g'' (CREATE_ORDER ''TATA_INR'' 100 (- 1) Buy ''1'')
                                (processAll residueCommands newEngine)))) ''1'' ''INR'' = 999100"
  by (simp add: residueCommands_def lockedOf_def availOf_def fresh_engine_defs create_order_defs
        book_eval_defs settle_eval_defs Let_def)

end
